theory Spec2Isabelle
  imports Main "HOL-Library.Multiset"
begin

section \<open>JavaScript array primitives used by the hooks\<close>

text \<open>
  Reading an array out of range yields \<^verbatim>\<open>undefined\<close> in JavaScript; the model returns
  \<open>None\<close> there, so that a comparison with a string is false as \<^verbatim>\<open>===\<close> is.
\<close>

definition js_index :: "'a list \<Rightarrow> int \<Rightarrow> 'a option" where
  "js_index xs i = (if 0 \<le> i \<and> i < int (length xs) then Some (xs ! nat i) else None)"

text \<open>\<^verbatim>\<open>xs.slice(0, e)\<close>: a negative end counts from the end of the array.\<close>

definition slice_to :: "'a list \<Rightarrow> int \<Rightarrow> 'a list" where
  "slice_to xs e = (if e < 0 then take (nat (int (length xs) + e)) xs else take (nat e) xs)"

text \<open>\<^verbatim>\<open>xs.slice(-n)\<close> for a positive \<open>n\<close>: the last \<open>n\<close> elements.\<close>

definition slice_last :: "'a list \<Rightarrow> nat \<Rightarrow> 'a list" where
  "slice_last xs n = drop (length xs - n) xs"

text \<open>\<^verbatim>\<open>xs.findIndex(p)\<close>, with \<open>None\<close> for \<^verbatim>\<open>-1\<close>.\<close>

fun findIndex :: "('a \<Rightarrow> bool) \<Rightarrow> 'a list \<Rightarrow> nat option" where
  "findIndex p [] = None"
| "findIndex p (x # xs) = (if p x then Some 0 else map_option Suc (findIndex p xs))"

section \<open>History Store: \<^verbatim>\<open>useDocumentHistory\<close>\<close>

definition MAX_HISTORY_STEPS :: nat where
  "MAX_HISTORY_STEPS = 50"

record DocumentHistoryEntry =
  history :: "string list"
  currentIndex :: int

text \<open>
  The state \<^verbatim>\<open>Record<string, DocumentHistoryEntry>\<close> is a map from file ids to entries.
  The functions below that change it are the updaters the hook passes to
  \<^verbatim>\<open>setDocumentHistories\<close>, applied to the previous state; for \<^verbatim>\<open>undo\<close> and \<^verbatim>\<open>redo\<close>,
  which return a value, the call is modelled as well. The hook starts from the empty record, or from the
  record an earlier session stored, which that session reached by the same updaters. File ids are the strings of \<^verbatim>\<open>generateId\<close> (digits and lower-case
  letters), none of which names a property of \<^verbatim>\<open>Object.prototype\<close>.
\<close>

type_synonym histories = "string \<rightharpoonup> DocumentHistoryEntry"

definition fresh_entry :: "string \<Rightarrow> DocumentHistoryEntry" where
  "fresh_entry c = \<lparr>history = [c], currentIndex = 0\<rparr>"

definition initializeHistory :: "histories \<Rightarrow> string \<Rightarrow> string \<Rightarrow> histories" where
  "initializeHistory prev fileId initialContent =
     (case prev fileId of
        None \<Rightarrow> prev(fileId \<mapsto> fresh_entry initialContent)
      | Some e \<Rightarrow>
          if js_index (history e) (int (length (history e)) - 1) \<noteq> Some initialContent
          then prev(fileId \<mapsto> fresh_entry initialContent)
          else prev)"

definition addHistoryStep :: "histories \<Rightarrow> string \<Rightarrow> string \<Rightarrow> histories" where
  "addHistoryStep prevHistories fileId newContent =
     (let currentFileHistory =
            (case prevHistories fileId of
               Some e \<Rightarrow> e
             | None \<Rightarrow> \<lparr>history = [''''], currentIndex = - 1\<rparr>)
      in if currentIndex currentFileHistory \<ge> 0 \<and>
            js_index (history currentFileHistory) (currentIndex currentFileHistory)
              = Some newContent
         then prevHistories
         else
           let appended =
                 slice_to (history currentFileHistory) (currentIndex currentFileHistory + 1)
                   @ [newContent];
               newHistoryArray =
                 (if length appended > MAX_HISTORY_STEPS
                  then slice_last appended MAX_HISTORY_STEPS else appended)
           in prevHistories(fileId \<mapsto>
                \<lparr>history = newHistoryArray,
                 currentIndex = int (length newHistoryArray) - 1\<rparr>))"

text \<open>
  The updaters of \<^verbatim>\<open>undo\<close> and \<^verbatim>\<open>redo\<close> do two things: they return the next state, and
  on the branch that moves the cursor they assign the snapshot under the new cursor to
  the variable \<^verbatim>\<open>newContent\<close> of the enclosing call. The first component below is the
  value assigned (\<open>None\<close> when nothing is assigned, or when the array has no element
  there), the second the next state.
\<close>

definition undo_updater :: "histories \<Rightarrow> string \<Rightarrow> string option \<times> histories" where
  "undo_updater prev fileId =
     (case prev fileId of
        None \<Rightarrow> (None, prev)
      | Some historyEntry \<Rightarrow>
          if currentIndex historyEntry > 0
          then let newIndex = currentIndex historyEntry - 1
               in (js_index (history historyEntry) newIndex,
                   prev(fileId \<mapsto> historyEntry\<lparr>currentIndex := newIndex\<rparr>))
          else (None, prev))"

definition redo_updater :: "histories \<Rightarrow> string \<Rightarrow> string option \<times> histories" where
  "redo_updater prev fileId =
     (case prev fileId of
        None \<Rightarrow> (None, prev)
      | Some historyEntry \<Rightarrow>
          if currentIndex historyEntry < int (length (history historyEntry)) - 1
          then let newIndex = currentIndex historyEntry + 1
               in (js_index (history historyEntry) newIndex,
                   prev(fileId \<mapsto> historyEntry\<lparr>currentIndex := newIndex\<rparr>))
          else (None, prev))"

text \<open>
  The calls themselves: \<^verbatim>\<open>let newContent = undefined; setDocumentHistories(updater);
  return newContent\<close>. React runs the updater inside \<^verbatim>\<open>setDocumentHistories\<close> only when
  no update of the component is pending (it then computes the next state eagerly);
  otherwise the updater runs during the next render, after the call has returned
  \<^verbatim>\<open>undefined\<close>. The source does not decide which; \<open>updaterRan\<close> says whether the
  updater had run when the call returned. The next state is the same in both cases.
\<close>

definition undo :: "bool \<Rightarrow> histories \<Rightarrow> string \<Rightarrow> string option \<times> histories" where
  "undo updaterRan prev fileId =
     (let (newContent, next) = undo_updater prev fileId
      in (if updaterRan then newContent else None, next))"

definition redo :: "bool \<Rightarrow> histories \<Rightarrow> string \<Rightarrow> string option \<times> histories" where
  "redo updaterRan prev fileId =
     (let (newContent, next) = redo_updater prev fileId
      in (if updaterRan then newContent else None, next))"

record HistoryState =
  canUndo :: bool
  canRedo :: bool

text \<open>
  \<^verbatim>\<open>getHistoryState(fileId: string | null)\<close>: the test \<^verbatim>\<open>!fileId\<close> is true for
  \<^verbatim>\<open>null\<close> and for the empty string.
\<close>

definition getHistoryState :: "histories \<Rightarrow> string option \<Rightarrow> HistoryState" where
  "getHistoryState documentHistories fileId =
     (case fileId of
        None \<Rightarrow> \<lparr>canUndo = False, canRedo = False\<rparr>
      | Some fid \<Rightarrow>
          if fid = [] then \<lparr>canUndo = False, canRedo = False\<rparr>
          else (case documentHistories fid of
                  None \<Rightarrow> \<lparr>canUndo = False, canRedo = False\<rparr>
                | Some e \<Rightarrow>
                    \<lparr>canUndo = currentIndex e > 0,
                     canRedo = currentIndex e < int (length (history e)) - 1\<rparr>))"

definition deleteFileHistory :: "histories \<Rightarrow> string \<Rightarrow> histories" where
  "deleteFileHistory prev fileId = prev(fileId := None)"

definition resetFileHistory :: "histories \<Rightarrow> string \<Rightarrow> string \<Rightarrow> histories" where
  "resetFileHistory prev fileId content = prev(fileId \<mapsto> fresh_entry content)"

text \<open>The snapshot under the cursor of an id, which the editor shows.\<close>

definition currentContent :: "histories \<Rightarrow> string \<Rightarrow> string option" where
  "currentContent h fileId =
     (case h fileId of
        None \<Rightarrow> None
      | Some e \<Rightarrow> js_index (history e) (currentIndex e))"

text \<open>The operations of the store as data, and their effect on the map.\<close>

datatype history_op =
    Initialize string string
  | Push string string
  | Undo string
  | Redo string
  | Reset string string
  | Discard string

fun apply_op :: "histories \<Rightarrow> history_op \<Rightarrow> histories" where
  "apply_op h (Initialize fid c) = initializeHistory h fid c"
| "apply_op h (Push fid c) = addHistoryStep h fid c"
| "apply_op h (Undo fid) = snd (undo_updater h fid)"
| "apply_op h (Redo fid) = snd (redo_updater h fid)"
| "apply_op h (Reset fid c) = resetFileHistory h fid c"
| "apply_op h (Discard fid) = deleteFileHistory h fid"

fun op_target :: "history_op \<Rightarrow> string" where
  "op_target (Initialize fid c) = fid"
| "op_target (Push fid c) = fid"
| "op_target (Undo fid) = fid"
| "op_target (Redo fid) = fid"
| "op_target (Reset fid c) = fid"
| "op_target (Discard fid) = fid"

text \<open>
  A run of pushes, and the updaters of \<open>n\<close> undos or redos in a row: the snapshots
  they select (the values they assign), and the state after the last.
\<close>

definition pushes :: "histories \<Rightarrow> string \<Rightarrow> string list \<Rightarrow> histories" where
  "pushes h fid cs = foldl (\<lambda>s c. addHistoryStep s fid c) h cs"

fun undo_times :: "nat \<Rightarrow> histories \<Rightarrow> string \<Rightarrow> string option list \<times> histories" where
  "undo_times 0 h fid = ([], h)"
| "undo_times (Suc n) h fid =
     (let (r, h') = undo_updater h fid; (rs, h'') = undo_times n h' fid in (r # rs, h''))"

fun redo_times :: "nat \<Rightarrow> histories \<Rightarrow> string \<Rightarrow> string option list \<times> histories" where
  "redo_times 0 h fid = ([], h)"
| "redo_times (Suc n) h fid =
     (let (r, h') = redo_updater h fid; (rs, h'') = redo_times n h' fid in (r # rs, h''))"

text \<open>Contents for long runs of pushes: the \<open>i\<close>-th is \<open>i\<close> letters x.\<close>

definition letters :: "nat \<Rightarrow> string" where
  "letters i = replicate i CHR ''x''"

text \<open>The data-model invariant of an entry, and of the whole store.\<close>

definition entry_ok :: "DocumentHistoryEntry \<Rightarrow> bool" where
  "entry_ok e = (0 \<le> currentIndex e \<and> currentIndex e < int (length (history e)))"

definition store_ok :: "histories \<Rightarrow> bool" where
  "store_ok h = (\<forall>fid e. h fid = Some e \<longrightarrow> entry_ok e)"

definition store_adj :: "histories \<Rightarrow> bool" where
  "store_adj h = (\<forall>fid e. h fid = Some e \<longrightarrow> distinct_adj (history e))"

definition store_capped :: "histories \<Rightarrow> bool" where
  "store_capped h = (\<forall>fid e. h fid = Some e \<longrightarrow> length (history e) \<le> MAX_HISTORY_STEPS)"

text \<open>The entry whose cursor is on the last snapshot of \<open>hs\<close>.\<close>

definition tip :: "string list \<Rightarrow> DocumentHistoryEntry" where
  "tip hs = \<lparr>history = hs, currentIndex = int (length hs) - 1\<rparr>"

text \<open>
  The push of the specification, in its words: truncate the history after the cursor,
  append the content, advance the cursor to the new last index, then trim from the front
  down to the cap, the cursor renormalised by the number of entries dropped.
\<close>

definition push_spec :: "DocumentHistoryEntry \<Rightarrow> string \<Rightarrow> DocumentHistoryEntry" where
  "push_spec e c =
     (let truncated = take (nat (currentIndex e) + 1) (history e);
          appended = truncated @ [c];
          advanced = int (length appended) - 1;
          excess = length appended - MAX_HISTORY_STEPS
      in \<lparr>history = drop excess appended, currentIndex = advanced - int excess\<rparr>)"

text \<open>
  The undo/redo law for the contents \<open>c0, cs\<close>, read on the store. On the store
  \<open>h1\<close> the pushes left: the updaters of as many undos as there were pushes move the
  cursor back over the earlier contents, newest first; those of as many redos move it
  forward over the pushed contents in order; and the cursor is back on the last content.
  The law itself starts from \<open>initialize\<close> and the pushes.
\<close>

definition undo_redo_run :: "histories \<Rightarrow> string \<Rightarrow> string \<Rightarrow> string list \<Rightarrow> bool" where
  "undo_redo_run h1 fid c0 cs =
     (let (undone, h2) = undo_times (length cs) h1 fid;
          (redone, h3) = redo_times (length cs) h2 fid
      in undone = map Some (rev (butlast (c0 # cs))) \<and>
         redone = map Some cs \<and>
         (case h3 fid of
            None \<Rightarrow> False
          | Some e \<Rightarrow> js_index (history e) (currentIndex e) = Some (last (c0 # cs))))"

definition undo_redo_law :: "histories \<Rightarrow> string \<Rightarrow> string \<Rightarrow> string list \<Rightarrow> bool" where
  "undo_redo_law h fid c0 cs =
     undo_redo_run (pushes (initializeHistory h fid c0) fid cs) fid c0 cs"

text \<open>
  Where \<open>initialize\<close> must leave the cursor for the law to hold: on a snapshot equal
  to \<open>c0\<close>, or on one equal to the first pushed content \<open>c1\<close> that directly follows a
  snapshot equal to \<open>c0\<close> (the push of \<open>c1\<close> is then dropped).
\<close>

definition cursor_fits :: "DocumentHistoryEntry \<Rightarrow> string \<Rightarrow> string \<Rightarrow> bool" where
  "cursor_fits e c0 c1 =
     (js_index (history e) (currentIndex e) = Some c0 \<or>
      js_index (history e) (currentIndex e) = Some c1 \<and>
      js_index (history e) (currentIndex e - 1) = Some c0)"

section \<open>Chat transcript: \<^verbatim>\<open>useChatLogic\<close>\<close>

datatype Sender = User | AI

record InlineData =
  data :: string
  mimeType :: string

text \<open>
  A \<^verbatim>\<open>ChatMessage\<close>. The timestamp is the number \<^verbatim>\<open>new Date(m.timestamp).getTime()\<close>
  that the comparator of every sort reads (milliseconds; a valid date).
\<close>

record ChatMessage =
  id_msg :: string
  sender :: Sender
  text_msg :: string
  timestamp :: int
  imagePreviewUrl :: "string option"
  imagePart :: "InlineData option"
  isStreaming :: "bool option"
  fullText :: "string option"

text \<open>
  \<^verbatim>\<open>.sort((a, b) => time(a) - time(b))\<close>: the sort of JavaScript arrays is stable, as
  \<open>sort_key\<close> is.
\<close>

definition sortByTimestamp :: "ChatMessage list \<Rightarrow> ChatMessage list" where
  "sortByTimestamp msgs = sort_key timestamp msgs"

text \<open>The initial state: the parsed array of local storage sorted, or the empty array.\<close>

definition loadChatMessages :: "ChatMessage list option \<Rightarrow> ChatMessage list" where
  "loadChatMessages savedMessages =
     (case savedMessages of None \<Rightarrow> [] | Some msgs \<Rightarrow> sortByTimestamp msgs)"

definition addMessageToList :: "ChatMessage list \<Rightarrow> ChatMessage \<Rightarrow> ChatMessage list" where
  "addMessageToList prev message = sortByTimestamp (prev @ [message])"

definition deleteChatMessage :: "ChatMessage list \<Rightarrow> string \<Rightarrow> ChatMessage list" where
  "deleteChatMessage prev messageId = sortByTimestamp (filter (\<lambda>msg. id_msg msg \<noteq> messageId) prev)"

definition aiMessage :: "string \<Rightarrow> string \<Rightarrow> int \<Rightarrow> ChatMessage" where
  "aiMessage newId txt now =
     \<lparr>id_msg = newId, sender = AI, text_msg = txt, timestamp = now,
      imagePreviewUrl = None, imagePart = None, isStreaming = None, fullText = None\<rparr>"

text \<open>The user message \<^verbatim>\<open>sendNewMessage\<close> builds before it calls the AI service.\<close>

definition userMessage ::
  "string \<Rightarrow> string \<Rightarrow> int \<Rightarrow> InlineData option \<Rightarrow> string option \<Rightarrow> ChatMessage" where
  "userMessage newId messageText now img url =
     \<lparr>id_msg = newId, sender = User, text_msg = messageText, timestamp = now,
      imagePreviewUrl = url, imagePart = img, isStreaming = None, fullText = None\<rparr>"

definition startsWith :: "string \<Rightarrow> string \<Rightarrow> bool" where
  "startsWith s p = (take (length p) s = p)"

text \<open>
  The welcome texts, in UTF-8: the inverted question mark is the bytes C2 BF, the
  e with acute accent C3 A9.
\<close>

definition welcomeText :: "string \<Rightarrow> bool \<Rightarrow> string" where
  "welcomeText fileName isNewFile =
     (if isNewFile then ''Has creado y abierto '' else ''Has abierto '')
     @ [CHR 0x22] @ fileName @ [CHR 0x22] @ ''. '' @ [CHR 0xC2, CHR 0xBF] @ ''En qu''
     @ [CHR 0xC3, CHR 0xA9] @ '' puedo ayudarte?''"

definition addWelcomeMessage ::
  "ChatMessage list \<Rightarrow> string \<Rightarrow> bool \<Rightarrow> string \<Rightarrow> int \<Rightarrow> ChatMessage list" where
  "addWelcomeMessage prevMessages fileName isNewFile newId now =
     (let filteredMessages =
            filter (\<lambda>m. \<not> (sender m = AI \<and>
                               (startsWith (text_msg m) ''Has abierto'' \<or>
                                startsWith (text_msg m) ''Has creado y abierto'')))
              prevMessages;
          newMessage = aiMessage newId (welcomeText fileName isNewFile) now
      in sortByTimestamp (filteredMessages @ [newMessage]))"

text \<open>
  \<^verbatim>\<open>editAndRegenerateMessage\<close> runs in two steps around the call of the AI service.
  The first, synchronous step rewrites the user message and drops the reply that follows
  it; \<open>None\<close> is the early return when the message is not found (the transcript is
  not set). The test \<^verbatim>\<open>if (oldAiMessageIdToRemove)\<close> is false for \<^verbatim>\<open>null\<close> and for the
  empty string.
\<close>

definition rewriteUserMessage ::
  "ChatMessage \<Rightarrow> string \<Rightarrow> int \<Rightarrow> InlineData option \<Rightarrow> string option \<Rightarrow> ChatMessage" where
  "rewriteUserMessage m newText now originalImagePart originalImagePreviewUrl =
     m\<lparr>text_msg := newText, timestamp := now,
       imagePart := originalImagePart, imagePreviewUrl := originalImagePreviewUrl\<rparr>"

definition editAndRegenerate_prepare ::
  "ChatMessage list \<Rightarrow> string \<Rightarrow> string \<Rightarrow> int \<Rightarrow> InlineData option \<Rightarrow> string option
     \<Rightarrow> ChatMessage list option" where
  "editAndRegenerate_prepare chatMessages originalUserMessageId newText now
       originalImagePart originalImagePreviewUrl =
     (case findIndex (\<lambda>msg. id_msg msg = originalUserMessageId) chatMessages of
        None \<Rightarrow> None
      | Some userMessageIndex \<Rightarrow>
          let updated =
                chatMessages[userMessageIndex :=
                  rewriteUserMessage (chatMessages ! userMessageIndex) newText now
                    originalImagePart originalImagePreviewUrl];
              oldAiMessageIdToRemove =
                (if userMessageIndex + 1 < length updated \<and>
                    sender (updated ! (userMessageIndex + 1)) = AI
                 then Some (id_msg (updated ! (userMessageIndex + 1))) else None);
              tempUpdatedMessages =
                (case oldAiMessageIdToRemove of
                   None \<Rightarrow> updated
                 | Some rid \<Rightarrow>
                     if rid \<noteq> [] then filter (\<lambda>msg. id_msg msg \<noteq> rid) updated else updated)
          in Some (sortByTimestamp tempUpdatedMessages))"

text \<open>
  The second step is the updater that inserts the reply (or the error message) behind the
  edited user message: \<^verbatim>\<open>splice(idx + 1, 0, m)\<close>, or \<^verbatim>\<open>push(m)\<close> when the message is
  gone. \<open>spliceAfterUserMessage\<close> is the array before the final sort.
\<close>

definition spliceAfterUserMessage ::
  "ChatMessage list \<Rightarrow> string \<Rightarrow> ChatMessage \<Rightarrow> ChatMessage list" where
  "spliceAfterUserMessage prev originalUserMessageId m =
     (case findIndex (\<lambda>x. id_msg x = originalUserMessageId) prev of
        Some updatedUserMessageIdx \<Rightarrow>
          take (updatedUserMessageIdx + 1) prev @ [m] @ drop (updatedUserMessageIdx + 1) prev
      | None \<Rightarrow> prev @ [m])"

definition editAndRegenerate_insert ::
  "ChatMessage list \<Rightarrow> string \<Rightarrow> ChatMessage \<Rightarrow> ChatMessage list" where
  "editAndRegenerate_insert prev originalUserMessageId m =
     sortByTimestamp (spliceAfterUserMessage prev originalUserMessageId m)"

section \<open>Content gateway and AI undo: \<^verbatim>\<open>App\<close>, \<^verbatim>\<open>useFileSystem\<close>, \<^verbatim>\<open>useChatLogic\<close>\<close>

record AppFile =
  id_file :: string
  name_file :: string
  folderId :: "string option"
  content :: string
  createdAt :: int
  deletedAt :: "int option"

datatype AISuggestionType = DOCUMENT_UPDATE | CHAT_REPLY

record AIResponse =
  action_type :: AISuggestionType
  new_document_content :: "string option"
  chat_message :: string

datatype NotificationType = Success | Error | Info

record NotificationContent =
  type_ntf :: NotificationType
  message_ntf :: string
  title_ntf :: "string option"

text \<open>
  The state the hooks of \<^verbatim>\<open>App\<close> hold together. The timers (the notification's, and
  the one that resets \<open>isAICollaborating\<close> after 500 ms) are not part of it.
\<close>

record AppState =
  files :: "AppFile list"
  documentHistories :: histories
  chatMessages :: "ChatMessage list"
  previousDocumentContentForUndo :: "string option"
  isAILoading :: bool
  isAICollaborating :: bool
  activeNotification :: "NotificationContent option"

definition updateFileContentOnly :: "AppFile list \<Rightarrow> string \<Rightarrow> string \<Rightarrow> AppFile list" where
  "updateFileContentOnly prevFiles fileId newContent =
     map (\<lambda>f. if id_file f = fileId then f\<lparr>content := newContent\<rparr> else f) prevFiles"

text \<open>
  \<^verbatim>\<open>activeFile = files.find(f => f.id === activeFileId && !f.deletedAt)\<close>, of \<^verbatim>\<open>App\<close>.
\<close>

definition activeFile :: "AppFile list \<Rightarrow> string option \<Rightarrow> AppFile option" where
  "activeFile fs activeFileId =
     (case activeFileId of
        None \<Rightarrow> None
      | Some fid \<Rightarrow> find (\<lambda>f. id_file f = fid \<and> deletedAt f = None) fs)"

text \<open>
  The gateway \<^verbatim>\<open>handleDocumentContentChange\<close>; \<^verbatim>\<open>if (fileId)\<close> is false for the empty
  string.
\<close>

definition handleDocumentContentChange :: "AppState \<Rightarrow> string \<Rightarrow> string \<Rightarrow> AppState" where
  "handleDocumentContentChange st fileId newContent =
     (if fileId \<noteq> []
      then st\<lparr>files := updateFileContentOnly (files st) fileId newContent,
              documentHistories := addHistoryStep (documentHistories st) fileId newContent\<rparr>
      else st)"

definition showNotification :: "AppState \<Rightarrow> NotificationType \<Rightarrow> string \<Rightarrow> AppState" where
  "showNotification st ty msg =
     st\<lparr>activeNotification := Some \<lparr>type_ntf = ty, message_ntf = msg, title_ntf = None\<rparr>\<rparr>"

text \<open>The fixed texts; the u with acute accent is the bytes C3 BA.\<close>

definition aiUndoneText :: string where
  "aiUndoneText = ''El '' @ [CHR 0xC3, CHR 0xBA] @ ''ltimo cambio de la IA ha sido deshecho.''"

definition noActiveDocumentNote :: string where
  "noActiveDocumentNote = '' (Nota: No hay un documento activo para aplicar cambios.)''"

definition undoAIDocumentChange :: "AppState \<Rightarrow> AppFile option \<Rightarrow> AppState" where
  "undoAIDocumentChange st activeFileArg =
     (case activeFileArg of
        None \<Rightarrow> st
      | Some f \<Rightarrow>
          (case previousDocumentContentForUndo st of
             None \<Rightarrow> st
           | Some previousContent \<Rightarrow>
               showNotification
                 ((handleDocumentContentChange st (id_file f) previousContent)
                    \<lparr>previousDocumentContentForUndo := None\<rparr>)
                 Info aiUndoneText))"

text \<open>
  What \<^verbatim>\<open>sendNewMessage\<close> does once the AI service has answered (the \<^verbatim>\<open>try\<close> block
  after the \<^verbatim>\<open>await\<close>, and \<^verbatim>\<open>finally\<close>): a document update with an active file
  records the content before the edit, goes through the gateway, and the reply is
  appended to the transcript.
\<close>

definition sendNewMessage_resolved ::
  "AppState \<Rightarrow> AppFile option \<Rightarrow> AIResponse \<Rightarrow> string \<Rightarrow> int \<Rightarrow> AppState" where
  "sendNewMessage_resolved st activeFileArg aiResult newId now =
     (case (action_type aiResult, new_document_content aiResult, activeFileArg) of
        (DOCUMENT_UPDATE, Some newDoc, Some f) \<Rightarrow>
          (let st1 = st\<lparr>previousDocumentContentForUndo := Some (content f),
                        isAICollaborating := True\<rparr>;
               st2 = handleDocumentContentChange st1 (id_file f) newDoc
           in st2\<lparr>chatMessages :=
                    addMessageToList (chatMessages st2)
                      (aiMessage newId (chat_message aiResult) now),
                  isAILoading := False\<rparr>)
      | (DOCUMENT_UPDATE, _, None) \<Rightarrow>
          st\<lparr>chatMessages :=
                addMessageToList (chatMessages st)
                  (aiMessage newId (chat_message aiResult @ noActiveDocumentNote) now),
             isAILoading := False\<rparr>
      | _ \<Rightarrow>
          st\<lparr>chatMessages :=
                addMessageToList (chatMessages st)
                  (aiMessage newId (chat_message aiResult) now),
             isAILoading := False\<rparr>)"

text \<open>
  The effect of \<^verbatim>\<open>App\<close> with the dependencies \<^verbatim>\<open>[activeFileId, activeFile,
  addWelcomeMessage, setPreviousDocumentContentForUndo, chatPanelWidth, setChatPanelWidth]\<close>
  (its comment: "Effect to handle actions when activeFileId changes (e.g., opening a
  file)"). With an active file it clears the AI undo snapshot ("Reset AI undo state for
  the new file") and replaces the welcome message; without an active id it clears the
  snapshot. The width of the chat panel, which it also sets, is layout state outside
  \<open>AppState\<close>. \<open>now\<close> is the \<^verbatim>\<open>Date.now()\<close> of the heuristic, \<open>newId\<close> and \<open>stamp\<close>
  are the id and the date of the welcome message. The test \<^verbatim>\<open>!createdAt\<close> is false for
  the \<^verbatim>\<open>Date\<close> of a file and true when no file has the id.
\<close>

definition isNewFileCreation :: "AppFile list \<Rightarrow> string \<Rightarrow> int \<Rightarrow> bool" where
  "isNewFileCreation fs activeFileId now =
     (case find (\<lambda>f. id_file f = activeFileId) fs of
        None \<Rightarrow> True
      | Some f \<Rightarrow> now - createdAt f < 1000)"

definition activeFileEffect ::
  "AppState \<Rightarrow> string option \<Rightarrow> int \<Rightarrow> string \<Rightarrow> int \<Rightarrow> AppState" where
  "activeFileEffect st activeFileId now newId stamp =
     (case activeFileId of
        None \<Rightarrow> st\<lparr>previousDocumentContentForUndo := None\<rparr>
      | Some fid \<Rightarrow>
          if fid = [] then st\<lparr>previousDocumentContentForUndo := None\<rparr>
          else (case activeFile (files st) (Some fid) of
                  None \<Rightarrow> st
                | Some af \<Rightarrow>
                    st\<lparr>previousDocumentContentForUndo := None,
                       chatMessages :=
                         addWelcomeMessage (chatMessages st) (name_file af)
                           (isNewFileCreation (files st) fid now) newId stamp\<rparr>))"

text \<open>
  When the effect runs after the gateway. \<^verbatim>\<open>updateFileContentOnly\<close> builds a new array
  and a new object \<^verbatim>\<open>{ ...f, content: newContent }\<close> for every file whose id is
  \<open>fileId\<close>, also when the content is the same; \<^verbatim>\<open>App\<close> looks \<^verbatim>\<open>activeFile\<close> up in
  \<^verbatim>\<open>files\<close> at every render. So after the gateway has run for the id of the active
  file, the dependency \<^verbatim>\<open>activeFile\<close> is another object than at the last render, and
  React runs the effect after the commit.
\<close>

definition gatewayReplacesActiveFile :: "AppFile list \<Rightarrow> string option \<Rightarrow> string \<Rightarrow> bool" where
  "gatewayReplacesActiveFile fs activeFileId fileId =
     (fileId \<noteq> [] \<and>
      (case activeFile fs activeFileId of
         None \<Rightarrow> False
       | Some af \<Rightarrow> id_file af = fileId))"

text \<open>
  The state once React has committed the updates of \<open>sendNewMessage_resolved\<close> and
  run the effect where its dependencies have changed. \<open>activeFileId\<close> is the id active
  when the answer arrives, \<open>activeFileArg\<close> the file \<^verbatim>\<open>sendNewMessage\<close> was called with,
  before the \<^verbatim>\<open>await\<close>.
\<close>

definition sendNewMessage_committed ::
  "AppState \<Rightarrow> string option \<Rightarrow> AppFile option \<Rightarrow> AIResponse \<Rightarrow> string \<Rightarrow> int
     \<Rightarrow> int \<Rightarrow> string \<Rightarrow> int \<Rightarrow> AppState" where
  "sendNewMessage_committed st activeFileId activeFileArg aiResult replyId replyStamp
       now newId stamp =
     (let st1 = sendNewMessage_resolved st activeFileArg aiResult replyId replyStamp
      in case (action_type aiResult, new_document_content aiResult, activeFileArg) of
           (DOCUMENT_UPDATE, Some newDoc, Some f) \<Rightarrow>
             if gatewayReplacesActiveFile (files st) activeFileId (id_file f)
             then activeFileEffect st1 activeFileId now newId stamp
             else st1
         | _ \<Rightarrow> st1)"

section \<open>Re-initialisation (C3)\<close>

lemma js_index_last:
  "js_index xs (int (length xs) - 1) = (if xs = [] then None else Some (last xs))"
  by (cases xs rule: rev_cases) (simp_all add: js_index_def)

lemma initializeHistory_last:
  "initializeHistory h fid c =
     (case h fid of
        None \<Rightarrow> h(fid \<mapsto> fresh_entry c)
      | Some e \<Rightarrow>
          if history e \<noteq> [] \<and> last (history e) = c then h else h(fid \<mapsto> fresh_entry c))"
  by (simp add: initializeHistory_def js_index_last split: option.splits)

lemma initializeHistory_replaces:
  assumes "h fid = Some e" and "history e = [] \<or> last (history e) \<noteq> c"
  shows "h(fid \<mapsto> fresh_entry c) \<noteq> h"
proof
  assume "h(fid \<mapsto> fresh_entry c) = h"
  then have "(h(fid \<mapsto> fresh_entry c)) fid = h fid" by simp
  with assms(1) have "e = fresh_entry c" by simp
  with assms(2) show False by (simp add: fresh_entry_def)
qed

text \<open>
  C3. \<open>initializeHistory\<close> leaves an existing entry untouched exactly when the last
  element of its \<open>history\<close> array (not the element at \<open>currentIndex\<close>) equals the
  content; in every other case (no entry, or a different or missing last element) the
  entry becomes \<open>\<lparr>history = [content], currentIndex = 0\<rparr>\<close>. For the entry with history
  a, b, c: initialising with c changes nothing, initialising with x replaces it, and
  initialising with the snapshot at the cursor (a, after two undos) replaces it as well.
\<close>

theorem initialize_contract:
  "(h fid = Some e \<longrightarrow>
      (initializeHistory h fid c = h
         \<longleftrightarrow> history e \<noteq> [] \<and> last (history e) = c)) \<and>
   (h fid = None \<or> (\<exists>e. h fid = Some e \<and> (history e = [] \<or> last (history e) \<noteq> c)) \<longrightarrow>
      initializeHistory h fid c = h(fid \<mapsto> \<lparr>history = [c], currentIndex = 0\<rparr>)) \<and>
   (h fid = Some \<lparr>history = [''a'', ''b'', ''c''], currentIndex = i\<rparr> \<longrightarrow>
      initializeHistory h fid ''c'' = h \<and>
      initializeHistory h fid ''x'' = h(fid \<mapsto> \<lparr>history = [''x''], currentIndex = 0\<rparr>) \<and>
      initializeHistory h fid ''a'' = h(fid \<mapsto> \<lparr>history = [''a''], currentIndex = 0\<rparr>))"
proof (intro conjI impI)
  assume "h fid = Some e"
  then show "initializeHistory h fid c = h \<longleftrightarrow> history e \<noteq> [] \<and> last (history e) = c"
    using initializeHistory_replaces [of h fid e c]
    by (auto simp: initializeHistory_last)
next
  assume "h fid = None \<or> (\<exists>e. h fid = Some e \<and> (history e = [] \<or> last (history e) \<noteq> c))"
  then show "initializeHistory h fid c = h(fid \<mapsto> \<lparr>history = [c], currentIndex = 0\<rparr>)"
    by (auto simp: initializeHistory_last fresh_entry_def)
next
  assume "h fid = Some \<lparr>history = [''a'', ''b'', ''c''], currentIndex = i\<rparr>"
  then show "initializeHistory h fid ''c'' = h"
    by (simp add: initializeHistory_last)
next
  assume "h fid = Some \<lparr>history = [''a'', ''b'', ''c''], currentIndex = i\<rparr>"
  then show "initializeHistory h fid ''x'' = h(fid \<mapsto> \<lparr>history = [''x''], currentIndex = 0\<rparr>)"
    by (simp add: initializeHistory_last fresh_entry_def)
next
  assume "h fid = Some \<lparr>history = [''a'', ''b'', ''c''], currentIndex = i\<rparr>"
  then show "initializeHistory h fid ''a'' = h(fid \<mapsto> \<lparr>history = [''a''], currentIndex = 0\<rparr>)"
    by (simp add: initializeHistory_last fresh_entry_def)
qed

theorem initialize_contract_witness:
  "initializeHistory
     (Map.empty(''f1'' \<mapsto> \<lparr>history = [''a'', ''b'', ''c''], currentIndex = 0\<rparr>)) ''f1'' ''c''
     = Map.empty(''f1'' \<mapsto> \<lparr>history = [''a'', ''b'', ''c''], currentIndex = 0\<rparr>) \<and>
   initializeHistory
     (Map.empty(''f1'' \<mapsto> \<lparr>history = [''a'', ''b'', ''c''], currentIndex = 0\<rparr>)) ''f1'' ''a''
     = Map.empty(''f1'' \<mapsto> \<lparr>history = [''a''], currentIndex = 0\<rparr>) \<and>
   initializeHistory Map.empty ''f1'' ''c''
     = Map.empty(''f1'' \<mapsto> \<lparr>history = [''c''], currentIndex = 0\<rparr>)"
  using initialize_contract
          [of "Map.empty(''f1'' \<mapsto> \<lparr>history = [''a'', ''b'', ''c''], currentIndex = 0\<rparr>)"
              "''f1''" "\<lparr>history = [''a'', ''b'', ''c''], currentIndex = 0\<rparr>" "''c''" 0]
        initialize_contract [of Map.empty "''f1''" undefined "''c''" 0]
  by simp

section \<open>Slices and runs of pushes\<close>

lemma slice_last_append:
  "slice_last (slice_last xs n @ ys) n = slice_last (xs @ ys) n"
proof -
  have "length xs + length ys - (length xs - n + n) + (length xs - n) = length xs + length ys - n"
    by arith
  then show ?thesis by (simp add: slice_last_def)
qed

lemma slice_last_short: "length xs \<le> n \<Longrightarrow> slice_last xs n = xs"
  by (simp add: slice_last_def)

lemma length_slice_last: "length (slice_last xs n) = min (length xs) n"
  by (simp add: slice_last_def)

lemma last_slice_last: "xs \<noteq> [] \<Longrightarrow> 0 < n \<Longrightarrow> last (slice_last xs n) = last xs"
  by (simp add: slice_last_def)

lemma addHistoryStep_tip:
  assumes "h fid = Some (tip hs)" "hs \<noteq> []" "last hs \<noteq> c"
  shows "addHistoryStep h fid c = h(fid \<mapsto> tip (slice_last (hs @ [c]) MAX_HISTORY_STEPS))"
  using assms
  by (auto simp: addHistoryStep_def tip_def Let_def js_index_def slice_to_def slice_last_def last_conv_nth nat_diff_distrib')

lemma pushes_tip:
  "h fid = Some (tip hs) \<Longrightarrow> hs \<noteq> [] \<Longrightarrow> length hs \<le> MAX_HISTORY_STEPS \<Longrightarrow>
   distinct_adj (last hs # cs) \<Longrightarrow>
   pushes h fid cs = h(fid \<mapsto> tip (slice_last (hs @ cs) MAX_HISTORY_STEPS))"
proof (induction cs arbitrary: h hs)
  case Nil
  then have "h(fid \<mapsto> tip hs) = h" by (simp add: fun_upd_idem)
  with Nil show ?case by (simp add: pushes_def slice_last_short)
next
  case (Cons c cs)
  let ?hs = "slice_last (hs @ [c]) MAX_HISTORY_STEPS"
  let ?h = "h(fid \<mapsto> tip ?hs)"
  from Cons.prems have step: "addHistoryStep h fid c = ?h"
    by (intro addHistoryStep_tip) simp_all
  have ne: "?hs \<noteq> []" and len: "length ?hs \<le> MAX_HISTORY_STEPS" and lst: "last ?hs = c"
    by (simp_all add: slice_last_def MAX_HISTORY_STEPS_def)
  from Cons.prems have adj: "distinct_adj (last ?hs # cs)"
    by (simp add: lst)
  have "pushes ?h fid cs = ?h(fid \<mapsto> tip (slice_last (?hs @ cs) MAX_HISTORY_STEPS))"
    by (rule Cons.IH [OF _ ne len adj]) simp
  then show ?case
    by (simp add: pushes_def step slice_last_append)
qed

lemma pushes_fresh:
  assumes "h fid = Some (fresh_entry c0)" "distinct_adj (c0 # cs)" "length cs < MAX_HISTORY_STEPS"
  shows "pushes h fid cs = h(fid \<mapsto> \<lparr>history = c0 # cs, currentIndex = int (length cs)\<rparr>)"
proof -
  have "pushes h fid cs = h(fid \<mapsto> tip (slice_last ([c0] @ cs) MAX_HISTORY_STEPS))"
    using assms by (intro pushes_tip) (simp_all add: fresh_entry_def tip_def MAX_HISTORY_STEPS_def)
  with assms(3) show ?thesis
    by (simp add: slice_last_def tip_def)
qed

lemma distinct_adj_distinct: "distinct xs \<Longrightarrow> distinct_adj xs"
  by (induction xs) (auto simp: distinct_adj_Cons)

section \<open>The calls and their updaters\<close>

lemma undo_next: "snd (undo updaterRan h fid) = snd (undo_updater h fid)"
  by (simp add: undo_def split_beta)

lemma redo_next: "snd (redo updaterRan h fid) = snd (redo_updater h fid)"
  by (simp add: redo_def split_beta)

text \<open>
  A call that returns before React has run its updater returns \<^verbatim>\<open>undefined\<close>, also where
  the updater goes on to move the cursor.
\<close>

lemma undo_before_updater: "fst (undo False h fid) = None"
  by (simp add: undo_def split_beta)

lemma redo_before_updater: "fst (redo False h fid) = None"
  by (simp add: redo_def split_beta)

section \<open>The push contract (C4)\<close>

lemma addHistoryStep_cases:
  "(\<exists>e. h fid = Some e \<and> entry_ok e \<and> history e ! nat (currentIndex e) = c \<and>
        addHistoryStep h fid c = h) \<or>
   (\<exists>hs. hs \<noteq> [] \<and> last hs = c \<and> length hs \<le> MAX_HISTORY_STEPS \<and>
         addHistoryStep h fid c = h(fid \<mapsto> tip hs))"
proof (cases "h fid")
  case None
  then have "addHistoryStep h fid c = h(fid \<mapsto> tip [c])"
    by (simp add: addHistoryStep_def slice_to_def tip_def MAX_HISTORY_STEPS_def)
  then show ?thesis by (intro disjI2 exI [of _ "[c]"]) (simp add: MAX_HISTORY_STEPS_def)
next
  case (Some e)
  show ?thesis
  proof (cases "currentIndex e \<ge> 0 \<and> js_index (history e) (currentIndex e) = Some c")
    case True
    with Some show ?thesis
      by (intro disjI1 exI [of _ e])
         (auto simp: addHistoryStep_def entry_ok_def js_index_def split: if_splits)
  next
    case False
    define app where "app = slice_to (history e) (currentIndex e + 1) @ [c]"
    define hs where "hs = (if length app > MAX_HISTORY_STEPS then slice_last app MAX_HISTORY_STEPS else app)"
    from False Some have "addHistoryStep h fid c = h(fid \<mapsto> tip hs)"
      unfolding addHistoryStep_def by (auto simp: Let_def tip_def hs_def app_def)
    moreover have "hs \<noteq> []" "last hs = c" "length hs \<le> MAX_HISTORY_STEPS"
      by (auto simp: hs_def app_def slice_last_def MAX_HISTORY_STEPS_def)
    ultimately show ?thesis by blast
  qed
qed

lemma tip_ok: "hs \<noteq> [] \<Longrightarrow> entry_ok (tip hs)"
  by (cases hs) (simp_all add: entry_ok_def tip_def)

lemma tip_current: "hs \<noteq> [] \<Longrightarrow> js_index (history (tip hs)) (currentIndex (tip hs)) = Some (last hs)"
  by (cases hs rule: rev_cases) (simp_all add: js_index_def tip_def)

lemma addHistoryStep_current:
  "\<exists>e. addHistoryStep h fid c fid = Some e \<and> entry_ok e \<and>
       js_index (history e) (currentIndex e) = Some c"
proof -
  consider e where "h fid = Some e" "entry_ok e" "history e ! nat (currentIndex e) = c"
      "addHistoryStep h fid c = h"
    | hs where "hs \<noteq> []" "last hs = c" "addHistoryStep h fid c = h(fid \<mapsto> tip hs)"
    using addHistoryStep_cases [of h fid c] by blast
  then show ?thesis
  proof cases
    case 1
    then show ?thesis by (simp add: js_index_def entry_ok_def)
  next
    case 2
    then show ?thesis by (simp add: tip_ok tip_current)
  qed
qed

lemma addHistoryStep_idem:
  "addHistoryStep (addHistoryStep h fid c) fid c = addHistoryStep h fid c"
proof -
  obtain e where "addHistoryStep h fid c fid = Some e" "entry_ok e"
    "js_index (history e) (currentIndex e) = Some c"
    using addHistoryStep_current by blast
  then show ?thesis
    by (subst (1) addHistoryStep_def) (simp add: entry_ok_def)
qed

lemma addHistoryStep_spec:
  assumes "h fid = Some e" and "entry_ok e"
  shows "addHistoryStep h fid c =
           (if history e ! nat (currentIndex e) = c then h else h(fid \<mapsto> push_spec e c))"
  using assms
  by (auto simp: addHistoryStep_def push_spec_def entry_ok_def js_index_def slice_to_def
        slice_last_def Let_def nat_add_distrib MAX_HISTORY_STEPS_def)

lemma branch_truncation:
  assumes "h fid = None \<or> h fid = Some (fresh_entry c0)"
    and "c0 \<noteq> c1" and "c1 \<noteq> c2" and "c1 \<noteq> c3"
  shows "undo_updater (pushes h fid [c0, c1, c2]) fid =
           (Some c1, h(fid \<mapsto> \<lparr>history = [c0, c1, c2], currentIndex = 1\<rparr>))"
    and "addHistoryStep (snd (undo_updater (pushes h fid [c0, c1, c2]) fid)) fid c3 =
           h(fid \<mapsto> \<lparr>history = [c0, c1, c3], currentIndex = 2\<rparr>)"
proof -
  have first: "addHistoryStep h fid c0 = h(fid \<mapsto> fresh_entry c0)"
    using assms(1)
    by (auto simp: addHistoryStep_def fresh_entry_def js_index_def slice_to_def
          MAX_HISTORY_STEPS_def fun_upd_idem)
  have "pushes (h(fid \<mapsto> fresh_entry c0)) fid [c1, c2] =
          (h(fid \<mapsto> fresh_entry c0))(fid \<mapsto> \<lparr>history = c0 # [c1, c2], currentIndex = int (length [c1, c2])\<rparr>)"
    using assms by (intro pushes_fresh) (simp_all add: MAX_HISTORY_STEPS_def)
  then have p: "pushes h fid [c0, c1, c2] = h(fid \<mapsto> \<lparr>history = [c0, c1, c2], currentIndex = 2\<rparr>)"
    using first by (simp add: pushes_def)
  show u: "undo_updater (pushes h fid [c0, c1, c2]) fid =
           (Some c1, h(fid \<mapsto> \<lparr>history = [c0, c1, c2], currentIndex = 1\<rparr>))"
    unfolding p by (simp add: undo_updater_def js_index_def)
  show "addHistoryStep (snd (undo_updater (pushes h fid [c0, c1, c2]) fid)) fid c3 =
           h(fid \<mapsto> \<lparr>history = [c0, c1, c3], currentIndex = 2\<rparr>)"
    unfolding u using assms(4)
    by (simp add: addHistoryStep_def js_index_def slice_to_def MAX_HISTORY_STEPS_def)
qed

text \<open>
  C4. For an entry that satisfies the index invariant, \<open>addHistoryStep\<close> changes
  nothing when the content equals the snapshot at \<open>currentIndex\<close>, and otherwise
  installs the entry of \<open>push_spec\<close>: the history truncated after the cursor, the
  content appended, the cursor on the new last index, trimmed from the front to the cap.
  Pushing the same content twice in a row gives the store of pushing it once (for every
  store). From a store with no entry for the id, or with the fresh entry of \<open>c0\<close>, the
  sequence push c0, push c1, push c2, undo, push c3 (with \<open>c0 \<noteq> c1\<close>, \<open>c1 \<noteq> c2\<close>,
  \<open>c1 \<noteq> c3\<close>, so that every push takes effect) leaves history c0, c1, c3 with
  \<open>currentIndex = 2\<close> and \<open>canRedo\<close> false, whether or not the updater of the undo
  had run when the call returned.
\<close>

theorem push_contract:
  "(h fid = Some e \<and> entry_ok e \<longrightarrow>
      addHistoryStep h fid c =
        (if history e ! nat (currentIndex e) = c then h else h(fid \<mapsto> push_spec e c))) \<and>
   addHistoryStep (addHistoryStep h fid c) fid c = addHistoryStep h fid c \<and>
   ((h fid = None \<or> h fid = Some (fresh_entry c0)) \<and> c0 \<noteq> c1 \<and> c1 \<noteq> c2 \<and> c1 \<noteq> c3 \<longrightarrow>
      (let h4 = snd (undo updaterRan (pushes h fid [c0, c1, c2]) fid);
           h5 = addHistoryStep h4 fid c3
       in h5 fid = Some \<lparr>history = [c0, c1, c3], currentIndex = 2\<rparr> \<and>
          \<not> canRedo (getHistoryState h5 (Some fid))))"
proof (intro conjI impI)
  assume "h fid = Some e \<and> entry_ok e"
  then show "addHistoryStep h fid c =
        (if history e ! nat (currentIndex e) = c then h else h(fid \<mapsto> push_spec e c))"
    by (simp add: addHistoryStep_spec)
next
  show "addHistoryStep (addHistoryStep h fid c) fid c = addHistoryStep h fid c"
    by (rule addHistoryStep_idem)
next
  assume a: "(h fid = None \<or> h fid = Some (fresh_entry c0)) \<and> c0 \<noteq> c1 \<and> c1 \<noteq> c2 \<and> c1 \<noteq> c3"
  then have hyps: "h fid = None \<or> h fid = Some (fresh_entry c0)" "c0 \<noteq> c1" "c1 \<noteq> c2" "c1 \<noteq> c3"
    by simp_all
  have u: "undo_updater (pushes h fid [c0, c1, c2]) fid =
           (Some c1, h(fid \<mapsto> \<lparr>history = [c0, c1, c2], currentIndex = 1\<rparr>))"
    using hyps by (rule branch_truncation(1))
  have p: "addHistoryStep (snd (undo_updater (pushes h fid [c0, c1, c2]) fid)) fid c3 =
           h(fid \<mapsto> \<lparr>history = [c0, c1, c3], currentIndex = 2\<rparr>)"
    using hyps by (rule branch_truncation(2))
  from p have p': "addHistoryStep (h(fid \<mapsto> \<lparr>history = [c0, c1, c2], currentIndex = 1\<rparr>)) fid c3 =
           h(fid \<mapsto> \<lparr>history = [c0, c1, c3], currentIndex = 2\<rparr>)"
    by (simp add: u)
  show "let h4 = snd (undo updaterRan (pushes h fid [c0, c1, c2]) fid);
           h5 = addHistoryStep h4 fid c3
       in h5 fid = Some \<lparr>history = [c0, c1, c3], currentIndex = 2\<rparr> \<and>
          \<not> canRedo (getHistoryState h5 (Some fid))"
    by (simp add: undo_next u p' getHistoryState_def)
qed

theorem push_contract_witness:
  "addHistoryStep (Map.empty(''d'' \<mapsto> \<lparr>history = [''a'', ''b'', ''c''], currentIndex = 1\<rparr>)) ''d'' ''b''
     = Map.empty(''d'' \<mapsto> \<lparr>history = [''a'', ''b'', ''c''], currentIndex = 1\<rparr>) \<and>
   addHistoryStep (Map.empty(''d'' \<mapsto> \<lparr>history = [''a'', ''b'', ''c''], currentIndex = 1\<rparr>)) ''d'' ''x''
     = Map.empty(''d'' \<mapsto> \<lparr>history = [''a'', ''b'', ''x''], currentIndex = 2\<rparr>) \<and>
   (let h4 = snd (undo False (pushes Map.empty ''d'' [''p'', ''q'', ''r'']) ''d'');
        h5 = addHistoryStep h4 ''d'' ''s''
    in h5 ''d'' = Some \<lparr>history = [''p'', ''q'', ''s''], currentIndex = 2\<rparr> \<and>
       \<not> canRedo (getHistoryState h5 (Some ''d'')))"
  using push_contract
          [of "Map.empty(''d'' \<mapsto> \<lparr>history = [''a'', ''b'', ''c''], currentIndex = 1\<rparr>)" "''d''"
              "\<lparr>history = [''a'', ''b'', ''c''], currentIndex = 1\<rparr>" "''b''" "''p''" "''q''" "''r''" "''s''"]
        push_contract
          [of "Map.empty(''d'' \<mapsto> \<lparr>history = [''a'', ''b'', ''c''], currentIndex = 1\<rparr>)" "''d''"
              "\<lparr>history = [''a'', ''b'', ''c''], currentIndex = 1\<rparr>" "''x''" "''p''" "''q''" "''r''" "''s''"]
        push_contract [of Map.empty "''d''" undefined "''x''" "''p''" "''q''" "''r''" "''s''" False]
  by (simp add: entry_ok_def push_spec_def MAX_HISTORY_STEPS_def)

section \<open>The index invariant (C7)\<close>

lemma store_ok_upd: "store_ok h \<Longrightarrow> entry_ok e \<Longrightarrow> store_ok (h(fid \<mapsto> e))"
  by (simp add: store_ok_def)

lemma fresh_entry_ok: "entry_ok (fresh_entry c)"
  by (simp add: entry_ok_def fresh_entry_def)

lemma store_ok_initialize: "store_ok h \<Longrightarrow> store_ok (initializeHistory h fid c)"
  by (simp add: initializeHistory_last store_ok_upd fresh_entry_ok split: option.splits)

lemma store_ok_push: "store_ok h \<Longrightarrow> store_ok (addHistoryStep h fid c)"
  using addHistoryStep_cases [of h fid c] by (auto simp: store_ok_upd tip_ok)

lemma snd_undo:
  "snd (undo_updater h fid) =
     (case h fid of
        None \<Rightarrow> h
      | Some e \<Rightarrow>
          if currentIndex e > 0 then h(fid \<mapsto> e\<lparr>currentIndex := currentIndex e - 1\<rparr>) else h)"
  by (simp add: undo_updater_def Let_def split: option.splits)

lemma snd_redo:
  "snd (redo_updater h fid) =
     (case h fid of
        None \<Rightarrow> h
      | Some e \<Rightarrow>
          if currentIndex e < int (length (history e)) - 1
          then h(fid \<mapsto> e\<lparr>currentIndex := currentIndex e + 1\<rparr>) else h)"
  by (simp add: redo_updater_def Let_def split: option.splits)

lemma store_ok_undo:
  assumes "store_ok h"
  shows "store_ok (snd (undo_updater h fid))"
proof (cases "h fid")
  case None
  with assms show ?thesis by (simp add: snd_undo)
next
  case (Some e)
  with assms have "entry_ok e" by (simp add: store_ok_def)
  then have "currentIndex e > 0 \<Longrightarrow> entry_ok (e\<lparr>currentIndex := currentIndex e - 1\<rparr>)"
    by (simp add: entry_ok_def)
  with Some assms show ?thesis by (simp add: snd_undo store_ok_upd)
qed

lemma store_ok_redo:
  assumes "store_ok h"
  shows "store_ok (snd (redo_updater h fid))"
proof (cases "h fid")
  case None
  with assms show ?thesis by (simp add: snd_redo)
next
  case (Some e)
  with assms have "entry_ok e" by (simp add: store_ok_def)
  then have "currentIndex e < int (length (history e)) - 1 \<Longrightarrow>
             entry_ok (e\<lparr>currentIndex := currentIndex e + 1\<rparr>)"
    by (simp add: entry_ok_def)
  with Some assms show ?thesis by (simp add: snd_redo store_ok_upd)
qed

lemma store_ok_apply: "store_ok h \<Longrightarrow> store_ok (apply_op h op)"
proof (cases op)
  case (Initialize fid c)
  assume "store_ok h"
  with Initialize show ?thesis by (simp add: store_ok_initialize)
next
  case (Push fid c)
  assume "store_ok h"
  with Push show ?thesis by (simp add: store_ok_push)
next
  case (Undo fid)
  assume "store_ok h"
  with Undo show ?thesis by (simp add: store_ok_undo)
next
  case (Redo fid)
  assume "store_ok h"
  with Redo show ?thesis by (simp add: store_ok_redo)
next
  case (Reset fid c)
  assume "store_ok h"
  with Reset show ?thesis by (simp add: resetFileHistory_def store_ok_upd fresh_entry_ok)
next
  case (Discard fid)
  assume "store_ok h"
  with Discard show ?thesis by (simp add: deleteFileHistory_def store_ok_def)
qed

lemma store_ok_run: "store_ok h \<Longrightarrow> store_ok (foldl apply_op h ops)"
  by (induction ops arbitrary: h) (simp_all add: store_ok_apply)

text \<open>
  C7. Every operation of the store (initialize, push, undo, redo, reset, discard)
  preserves the invariant \<open>0 \<le> currentIndex < length history\<close> of all entries, and
  every entry of a store reached from the empty store by these operations satisfies it;
  in particular its history is not empty.
\<close>

theorem index_invariant:
  "(store_ok h \<longrightarrow> store_ok (apply_op h op)) \<and>
   (foldl apply_op Map.empty ops fid = Some e \<longrightarrow>
      0 \<le> currentIndex e \<and> currentIndex e < int (length (history e)) \<and> history e \<noteq> [])"
proof (intro conjI impI)
  assume "store_ok h"
  then show "store_ok (apply_op h op)" by (rule store_ok_apply)
next
  assume r: "foldl apply_op Map.empty ops fid = Some e"
  have "store_ok (foldl apply_op Map.empty ops)"
    by (rule store_ok_run) (simp add: store_ok_def)
  with r have ok: "entry_ok e" by (simp add: store_ok_def)
  then show "0 \<le> currentIndex e" "currentIndex e < int (length (history e))" "history e \<noteq> []"
    by (auto simp: entry_ok_def)
qed

theorem index_invariant_witness:
  "store_ok (apply_op (Map.empty(''d'' \<mapsto> \<lparr>history = [''a'', ''b''], currentIndex = 1\<rparr>)) (Undo ''d'')) \<and>
   foldl apply_op Map.empty [Initialize ''d'' ''a'', Push ''d'' ''b'', Undo ''d''] ''d''
     = Some \<lparr>history = [''a'', ''b''], currentIndex = 0\<rparr>"
proof -
  have ok: "store_ok (Map.empty(''d'' \<mapsto> \<lparr>history = [''a'', ''b''], currentIndex = 1\<rparr>))"
    by (simp add: store_ok_def entry_ok_def)
  have run: "foldl apply_op Map.empty [Initialize ''d'' ''a'', Push ''d'' ''b'', Undo ''d''] ''d''
     = Some \<lparr>history = [''a'', ''b''], currentIndex = 0\<rparr>"
    by (simp add: initializeHistory_def addHistoryStep_def snd_undo fresh_entry_def js_index_def
          slice_to_def MAX_HISTORY_STEPS_def)
  from index_invariant
         [of "Map.empty(''d'' \<mapsto> \<lparr>history = [''a'', ''b''], currentIndex = 1\<rparr>)" "Undo ''d''"
             "[Initialize ''d'' ''a'', Push ''d'' ''b'', Undo ''d'']" "''d''"
             "\<lparr>history = [''a'', ''b''], currentIndex = 0\<rparr>"] ok run
  show ?thesis by simp
qed

section \<open>Frame properties (C10)\<close>

text \<open>
  C10. \<open>undo\<close> and \<open>redo\<close> leave the history array of every entry as it was (that
  of their own id included: only its \<open>currentIndex\<close> can change), and every operation
  of the store leaves the entries of all ids other than its own unchanged.
\<close>

theorem history_frame:
  "map_option history (snd (undo updaterRan h fid) fid') = map_option history (h fid') \<and>
   map_option history (snd (redo updaterRan h fid) fid') = map_option history (h fid') \<and>
   (fid' \<noteq> fid \<longrightarrow>
      snd (undo updaterRan h fid) fid' = h fid' \<and> snd (redo updaterRan h fid) fid' = h fid') \<and>
   (fid' \<noteq> op_target op \<longrightarrow> apply_op h op fid' = h fid')"
proof (intro conjI impI)
  show "map_option history (snd (undo updaterRan h fid) fid') = map_option history (h fid')"
    by (auto simp: undo_next snd_undo split: option.splits)
  show "map_option history (snd (redo updaterRan h fid) fid') = map_option history (h fid')"
    by (auto simp: redo_next snd_redo split: option.splits)
next
  assume "fid' \<noteq> fid"
  then show "snd (undo updaterRan h fid) fid' = h fid'" "snd (redo updaterRan h fid) fid' = h fid'"
    by (simp_all add: undo_next redo_next snd_undo snd_redo split: option.splits)
next
  assume "fid' \<noteq> op_target op"
  then show "apply_op h op fid' = h fid'"
    by (cases op)
       (simp_all add: initializeHistory_def addHistoryStep_def snd_undo snd_redo
          resetFileHistory_def deleteFileHistory_def Let_def split: option.splits)
qed

theorem history_frame_witness:
  "snd (undo False (Map.empty(''d'' \<mapsto> \<lparr>history = [''a'', ''b''], currentIndex = 1\<rparr>,
                        ''k'' \<mapsto> \<lparr>history = [''z''], currentIndex = 0\<rparr>)) ''d'') ''k''
     = Some \<lparr>history = [''z''], currentIndex = 0\<rparr> \<and>
   apply_op (Map.empty(''d'' \<mapsto> \<lparr>history = [''a'', ''b''], currentIndex = 1\<rparr>,
                       ''k'' \<mapsto> \<lparr>history = [''z''], currentIndex = 0\<rparr>)) (Push ''d'' ''c'') ''k''
     = Some \<lparr>history = [''z''], currentIndex = 0\<rparr> \<and>
   map_option history
     (snd (undo False (Map.empty(''d'' \<mapsto> \<lparr>history = [''a'', ''b''], currentIndex = 1\<rparr>,
                           ''k'' \<mapsto> \<lparr>history = [''z''], currentIndex = 0\<rparr>)) ''d'') ''d'')
     = Some [''a'', ''b'']"
  using history_frame
          [of False "Map.empty(''d'' \<mapsto> \<lparr>history = [''a'', ''b''], currentIndex = 1\<rparr>,
                         ''k'' \<mapsto> \<lparr>history = [''z''], currentIndex = 0\<rparr>)" "''d''" "''k''" "Push ''d'' ''c''"]
        history_frame
          [of False "Map.empty(''d'' \<mapsto> \<lparr>history = [''a'', ''b''], currentIndex = 1\<rparr>,
                         ''k'' \<mapsto> \<lparr>history = [''z''], currentIndex = 0\<rparr>)" "''d''" "''d''" "Push ''k'' ''c''"]
  by simp

section \<open>The cap on the history length (C8)\<close>

lemma store_capped_upd:
  "store_capped h \<Longrightarrow> length (history e) \<le> MAX_HISTORY_STEPS \<Longrightarrow> store_capped (h(fid \<mapsto> e))"
  by (simp add: store_capped_def)

lemma store_capped_cursor:
  "store_capped h \<Longrightarrow> h fid = Some e \<Longrightarrow> store_capped (h(fid \<mapsto> e\<lparr>currentIndex := i\<rparr>))"
  by (simp add: store_capped_def)

lemma store_capped_apply: "store_capped h \<Longrightarrow> store_capped (apply_op h op)"
proof (cases op)
  case (Initialize fid c)
  assume "store_capped h"
  with Initialize show ?thesis
    by (simp add: initializeHistory_last store_capped_upd fresh_entry_def MAX_HISTORY_STEPS_def
          split: option.splits)
next
  case (Push fid c)
  assume "store_capped h"
  with Push show ?thesis
    using addHistoryStep_cases [of h fid c] by (auto simp: store_capped_upd tip_def)
next
  case (Undo fid)
  assume "store_capped h"
  with Undo show ?thesis
    by (simp add: snd_undo store_capped_cursor split: option.splits)
next
  case (Redo fid)
  assume "store_capped h"
  with Redo show ?thesis
    by (simp add: snd_redo store_capped_cursor split: option.splits)
next
  case (Reset fid c)
  assume "store_capped h"
  with Reset show ?thesis
    by (simp add: resetFileHistory_def store_capped_upd fresh_entry_def MAX_HISTORY_STEPS_def)
next
  case (Discard fid)
  assume "store_capped h"
  with Discard show ?thesis by (simp add: deleteFileHistory_def store_capped_def)
qed

lemma store_capped_run: "store_capped h \<Longrightarrow> store_capped (foldl apply_op h ops)"
  by (induction ops arbitrary: h) (simp_all add: store_capped_apply)

lemma push_spec_tip:
  "push_spec e c = tip (slice_last (take (nat (currentIndex e) + 1) (history e) @ [c]) MAX_HISTORY_STEPS)"
  by (simp add: push_spec_def tip_def slice_last_def Let_def MAX_HISTORY_STEPS_def) arith

lemma pushes_from_cursor:
  assumes "h fid = Some e" and "entry_ok e"
    and "distinct_adj ((history e ! nat (currentIndex e)) # c # cs)"
  shows "pushes h fid (c # cs) =
           h(fid \<mapsto> tip (slice_last (take (nat (currentIndex e) + 1) (history e) @ c # cs)
                                     MAX_HISTORY_STEPS))"
proof -
  define hs where "hs = slice_last (take (nat (currentIndex e) + 1) (history e) @ [c]) MAX_HISTORY_STEPS"
  have first: "addHistoryStep h fid c = h(fid \<mapsto> tip hs)"
    using assms by (simp add: addHistoryStep_spec push_spec_tip hs_def)
  have ne: "hs \<noteq> []" and len: "length hs \<le> MAX_HISTORY_STEPS" and lst: "last hs = c"
    by (simp_all add: hs_def slice_last_def MAX_HISTORY_STEPS_def)
  from assms(3) have adj: "distinct_adj (last hs # cs)"
    by (simp add: lst)
  have "pushes (h(fid \<mapsto> tip hs)) fid cs =
          (h(fid \<mapsto> tip hs))(fid \<mapsto> tip (slice_last (hs @ cs) MAX_HISTORY_STEPS))"
    by (rule pushes_tip [OF _ ne len adj]) simp
  then show ?thesis
    by (simp add: pushes_def first hs_def slice_last_append)
qed

lemma pushes_sixty:
  assumes "length ds = 60" and "distinct ds"
  shows "pushes h fid ds fid = Some \<lparr>history = drop 10 ds, currentIndex = 49\<rparr>"
proof -
  from assms(1) obtain d c cs where ds: "ds = d # c # cs"
    by (cases ds; cases "tl ds") auto
  obtain e where e: "addHistoryStep h fid d fid = Some e" "entry_ok e"
    "js_index (history e) (currentIndex e) = Some d"
    using addHistoryStep_current by blast
  then have cur: "history e ! nat (currentIndex e) = d" and inr: "nat (currentIndex e) < length (history e)"
    by (auto simp: js_index_def entry_ok_def split: if_splits)
  define pre where "pre = take (nat (currentIndex e)) (history e)"
  have tk: "take (Suc (nat (currentIndex e))) (history e) = pre @ [d]"
    using inr cur by (simp add: pre_def take_Suc_conv_app_nth)
  from assms(2) have "distinct_adj ((history e ! nat (currentIndex e)) # c # cs)"
    unfolding cur ds by (rule distinct_adj_distinct)
  with e have "pushes (addHistoryStep h fid d) fid (c # cs) =
      (addHistoryStep h fid d)(fid \<mapsto>
         tip (slice_last (take (nat (currentIndex e) + 1) (history e) @ c # cs) MAX_HISTORY_STEPS))"
    by (intro pushes_from_cursor) simp_all
  then have "pushes h fid ds fid = Some (tip (slice_last (pre @ ds) MAX_HISTORY_STEPS))"
    by (simp add: pushes_def ds tk)
  moreover have "slice_last (pre @ ds) MAX_HISTORY_STEPS = drop 10 ds"
    using assms(1) by (simp add: slice_last_def MAX_HISTORY_STEPS_def)
  ultimately show ?thesis
    using assms(1) by (simp add: tip_def)
qed

text \<open>
  C8. Every operation preserves "no history is longer than 50", so no entry of a store
  reached from the empty store exceeds 50 snapshots. Pushing 60 pairwise different
  contents onto an initialised entry (indeed onto any store) leaves exactly the last 50 of
  them, the 10 pushed first evicted (and whatever was there before), with
  \<open>currentIndex = 49\<close>, the last position. After every push, trimmed or not, the
  snapshot at \<open>currentIndex\<close> is the content just pushed.
\<close>

theorem cap_enforcement:
  "(store_capped h \<longrightarrow> store_capped (apply_op h op)) \<and>
   (foldl apply_op Map.empty ops fid = Some e \<longrightarrow> length (history e) \<le> 50) \<and>
   (length ds = 60 \<and> distinct ds \<longrightarrow>
      pushes (initializeHistory h fid c0) fid ds fid
        = Some \<lparr>history = drop 10 ds, currentIndex = 49\<rparr> \<and>
      length (drop 10 ds) = 50) \<and>
   (\<exists>e'. addHistoryStep h fid c fid = Some e' \<and>
         js_index (history e') (currentIndex e') = Some c)"
proof (intro conjI impI)
  assume "store_capped h"
  then show "store_capped (apply_op h op)" by (rule store_capped_apply)
next
  assume r: "foldl apply_op Map.empty ops fid = Some e"
  have "store_capped (foldl apply_op Map.empty ops)"
    by (rule store_capped_run) (simp add: store_capped_def)
  with r show "length (history e) \<le> 50"
    by (simp add: store_capped_def MAX_HISTORY_STEPS_def)
next
  assume a: "length ds = 60 \<and> distinct ds"
  then show "pushes (initializeHistory h fid c0) fid ds fid
        = Some \<lparr>history = drop 10 ds, currentIndex = 49\<rparr>"
    by (simp add: pushes_sixty)
  from a show "length (drop 10 ds) = 50" by simp
next
  show "\<exists>e'. addHistoryStep h fid c fid = Some e' \<and>
         js_index (history e') (currentIndex e') = Some c"
    using addHistoryStep_current [of h fid c] by blast
qed

theorem cap_enforcement_witness:
  "length (map (\<lambda>i. replicate i CHR ''x'') [1..<61]) = 60 \<and>
   distinct (map (\<lambda>i. replicate i CHR ''x'') [1..<61]) \<and>
   pushes (initializeHistory Map.empty ''d'' []) ''d'' (map (\<lambda>i. replicate i CHR ''x'') [1..<61]) ''d''
     = Some \<lparr>history = drop 10 (map (\<lambda>i. replicate i CHR ''x'') [1..<61]), currentIndex = 49\<rparr> \<and>
   store_capped (apply_op Map.empty (Push ''d'' ''a'')) \<and>
   length (history \<lparr>history = [''a''], currentIndex = 0\<rparr>) \<le> 50"
proof -
  have "inj (\<lambda>i. replicate i CHR ''x'')"
    by (rule injI) (metis length_replicate)
  then have d: "distinct (map (\<lambda>i. replicate i CHR ''x'') [1..<61])"
    by (simp add: distinct_map inj_on_def)
  have l: "length (map (\<lambda>i. replicate i CHR ''x'') [1..<61]) = 60"
    by simp
  have c: "store_capped Map.empty"
    by (simp add: store_capped_def)
  have r: "foldl apply_op Map.empty [Reset ''d'' ''a''] ''d'' = Some \<lparr>history = [''a''], currentIndex = 0\<rparr>"
    by (simp add: resetFileHistory_def fresh_entry_def)
  from cap_enforcement
         [of Map.empty "Push ''d'' ''a''" "[Reset ''d'' ''a'']" "''d''"
             "\<lparr>history = [''a''], currentIndex = 0\<rparr>"
             "map (\<lambda>i. replicate i CHR ''x'') [1..<61]" "[]" "''a''"] d l c r
  show ?thesis by simp
qed

section \<open>The undo/redo law (C1)\<close>

subsection \<open>What the updaters select\<close>

text \<open>
  The value an updater assigns is a fact of the store: the updater of \<open>undo\<close> assigns
  \<open>c\<close> exactly when the cursor is not on the first snapshot and the snapshot before it
  is \<open>c\<close>, that of \<open>redo\<close> exactly when the cursor is not on the last snapshot and the
  snapshot after it is \<open>c\<close>; the cursor then moves there.
\<close>

lemma undo_updater_selects:
  "fst (undo_updater h fid) = Some c \<longleftrightarrow>
     (\<exists>e. h fid = Some e \<and> 0 < currentIndex e \<and>
          js_index (history e) (currentIndex e - 1) = Some c)"
  by (auto simp: undo_updater_def Let_def split: option.splits)

lemma redo_updater_selects:
  "fst (redo_updater h fid) = Some c \<longleftrightarrow>
     (\<exists>e. h fid = Some e \<and> currentIndex e < int (length (history e)) - 1 \<and>
          js_index (history e) (currentIndex e + 1) = Some c)"
  by (auto simp: redo_updater_def Let_def split: option.splits)

text \<open>
  Read on the store alone: an updater assigns a value exactly when it changes the store,
  and the value is then the snapshot under the cursor of the new store.
\<close>

lemma undo_updater_store:
  "fst (undo_updater h fid) =
     (if snd (undo_updater h fid) = h then None
      else currentContent (snd (undo_updater h fid)) fid)"
proof (cases "h fid")
  case None
  then show ?thesis by (simp add: undo_updater_def)
next
  case (Some e)
  show ?thesis
  proof (cases "0 < currentIndex e")
    case False
    with Some show ?thesis by (simp add: undo_updater_def)
  next
    case True
    have "currentIndex (e\<lparr>currentIndex := currentIndex e - 1\<rparr>) \<noteq> currentIndex e"
      by simp
    then have "e\<lparr>currentIndex := currentIndex e - 1\<rparr> \<noteq> e"
      by metis
    then have "(h(fid \<mapsto> e\<lparr>currentIndex := currentIndex e - 1\<rparr>)) fid \<noteq> h fid"
      using Some by simp
    then have "h(fid \<mapsto> e\<lparr>currentIndex := currentIndex e - 1\<rparr>) \<noteq> h"
      by metis
    with Some True show ?thesis
      by (simp add: undo_updater_def Let_def currentContent_def)
  qed
qed

lemma redo_updater_store:
  "fst (redo_updater h fid) =
     (if snd (redo_updater h fid) = h then None
      else currentContent (snd (redo_updater h fid)) fid)"
proof (cases "h fid")
  case None
  then show ?thesis by (simp add: redo_updater_def)
next
  case (Some e)
  show ?thesis
  proof (cases "currentIndex e < int (length (history e)) - 1")
    case False
    with Some show ?thesis by (simp add: redo_updater_def)
  next
    case True
    have "currentIndex (e\<lparr>currentIndex := currentIndex e + 1\<rparr>) \<noteq> currentIndex e"
      by simp
    then have "e\<lparr>currentIndex := currentIndex e + 1\<rparr> \<noteq> e"
      by metis
    then have "(h(fid \<mapsto> e\<lparr>currentIndex := currentIndex e + 1\<rparr>)) fid \<noteq> h fid"
      using Some by simp
    then have "h(fid \<mapsto> e\<lparr>currentIndex := currentIndex e + 1\<rparr>) \<noteq> h"
      by metis
    with Some True show ?thesis
      by (simp add: redo_updater_def Let_def currentContent_def)
  qed
qed

text \<open>A call returns the value its updater assigned only if the updater had run.\<close>

lemma undo_after_updater: "fst (undo True h fid) = fst (undo_updater h fid)"
  by (simp add: undo_def split_beta)

lemma redo_after_updater: "fst (redo True h fid) = fst (redo_updater h fid)"
  by (simp add: redo_def split_beta)

lemma undo_updater_entry:
  assumes "h fid = Some \<lparr>history = H, currentIndex = int i\<rparr>" and "i < length H"
  shows "undo_updater h fid =
           (if 0 < i then (Some (H ! (i - 1)), h(fid \<mapsto> \<lparr>history = H, currentIndex = int (i - 1)\<rparr>))
            else (None, h))"
  using assms by (auto simp: undo_updater_def js_index_def Let_def nat_diff_distrib')

lemma redo_updater_entry:
  assumes "h fid = Some \<lparr>history = H, currentIndex = int p\<rparr>"
  shows "redo_updater h fid =
           (if Suc p < length H
            then (Some (H ! Suc p), h(fid \<mapsto> \<lparr>history = H, currentIndex = int (Suc p)\<rparr>))
            else (None, h))"
  using assms by (auto simp: redo_updater_def js_index_def Let_def nat_add_distrib add.commute)

text \<open>What a run of undos that all select a snapshot says about the history.\<close>

lemma undo_times_selected:
  assumes "h fid = Some \<lparr>history = H, currentIndex = int i\<rparr>" and "i < length H"
    and "fst (undo_times (length vs) h fid) = map Some vs"
  shows "length vs \<le> i \<and> take (length vs) (drop (i - length vs) H) = rev vs \<and>
         snd (undo_times (length vs) h fid)
           = h(fid \<mapsto> \<lparr>history = H, currentIndex = int (i - length vs)\<rparr>)"
  using assms
proof (induction vs arbitrary: h i)
  case Nil
  then show ?case by (simp add: map_upd_triv)
next
  case (Cons v vs)
  from Cons.prems(3) have pos: "0 < i" and v: "H ! (i - 1) = v"
    by (auto simp: undo_updater_entry [of h fid H i, OF Cons.prems(1,2)] split_beta split: if_splits)
  define h' where "h' = h(fid \<mapsto> \<lparr>history = H, currentIndex = int (i - 1)\<rparr>)"
  have u: "undo_updater h fid = (Some v, h')"
    using pos v by (simp add: undo_updater_entry [of h fid H i, OF Cons.prems(1,2)] h'_def)
  have h': "h' fid = Some \<lparr>history = H, currentIndex = int (i - 1)\<rparr>" and lt: "i - 1 < length H"
    using Cons.prems(2) by (simp_all add: h'_def)
  from Cons.prems(3) have rest: "fst (undo_times (length vs) h' fid) = map Some vs"
    by (simp add: u split_beta)
  from Cons.IH [of h' "i - 1", OF h' lt rest]
  have le: "length vs \<le> i - 1"
    and tk: "take (length vs) (drop (i - 1 - length vs) H) = rev vs"
    and st: "snd (undo_times (length vs) h' fid)
               = h'(fid \<mapsto> \<lparr>history = H, currentIndex = int (i - 1 - length vs)\<rparr>)"
    by blast+
  have le': "length (v # vs) \<le> i"
    using le pos by simp
  have d: "drop (i - length (v # vs)) H ! length vs = v"
    using le' lt v pos by (simp add: nth_append)
  have "take (Suc (length vs)) (drop (i - length (v # vs)) H)
          = take (length vs) (drop (i - length (v # vs)) H) @ [drop (i - length (v # vs)) H ! length vs]"
    using le' Cons.prems(2) by (intro take_Suc_conv_app_nth) simp
  moreover have "i - length (v # vs) = i - 1 - length vs"
    by simp
  ultimately have tk': "take (length (v # vs)) (drop (i - length (v # vs)) H) = rev (v # vs)"
    using tk d by simp
  have st': "snd (undo_times (length (v # vs)) h fid)
               = h(fid \<mapsto> \<lparr>history = H, currentIndex = int (i - length (v # vs))\<rparr>)"
    using st by (simp add: u split_beta h'_def)
  from le' tk' st' show ?case by blast
qed

lemma redo_times_selected:
  assumes "h fid = Some \<lparr>history = H, currentIndex = int p\<rparr>" and "p < length H"
    and "fst (redo_times (length vs) h fid) = map Some vs"
  shows "p + length vs < length H \<and> take (length vs) (drop (Suc p) H) = vs \<and>
         snd (redo_times (length vs) h fid)
           = h(fid \<mapsto> \<lparr>history = H, currentIndex = int (p + length vs)\<rparr>)"
  using assms
proof (induction vs arbitrary: h p)
  case Nil
  then show ?case by (simp add: map_upd_triv)
next
  case (Cons v vs)
  from Cons.prems(3) have lt: "Suc p < length H" and v: "H ! Suc p = v"
    by (auto simp: redo_updater_entry [of h fid H p, OF Cons.prems(1)] split_beta split: if_splits)
  define h' where "h' = h(fid \<mapsto> \<lparr>history = H, currentIndex = int (Suc p)\<rparr>)"
  have u: "redo_updater h fid = (Some v, h')"
    using lt v by (simp add: redo_updater_entry [of h fid H p, OF Cons.prems(1)] h'_def)
  have h': "h' fid = Some \<lparr>history = H, currentIndex = int (Suc p)\<rparr>"
    by (simp add: h'_def)
  from Cons.prems(3) have rest: "fst (redo_times (length vs) h' fid) = map Some vs"
    by (simp add: u split_beta)
  from Cons.IH [of h' "Suc p", OF h' lt rest]
  have le: "Suc p + length vs < length H"
    and tk: "take (length vs) (drop (Suc (Suc p)) H) = vs"
    and st: "snd (redo_times (length vs) h' fid)
               = h'(fid \<mapsto> \<lparr>history = H, currentIndex = int (Suc p + length vs)\<rparr>)"
    by blast+
  have "drop (Suc p) H = v # drop (Suc (Suc p)) H"
    using Cons_nth_drop_Suc [of "Suc p" H] lt v by simp
  with tk have tk': "take (length (v # vs)) (drop (Suc p) H) = v # vs"
    by simp
  have st': "snd (redo_times (length (v # vs)) h fid)
               = h(fid \<mapsto> \<lparr>history = H, currentIndex = int (p + length (v # vs))\<rparr>)"
    using st by (simp add: u split_beta h'_def)
  from le tk' st' show ?case by simp
qed


text \<open>Conversely, a cursor with enough history on either side moves as expected.\<close>

lemma undo_times_back:
  assumes "h fid = Some \<lparr>history = H, currentIndex = int i\<rparr>"
    and "H = pre @ xs @ x # rest" and "i = length pre + length xs"
  shows "undo_times (length xs) h fid =
           (map Some (rev xs), h(fid \<mapsto> \<lparr>history = H, currentIndex = int (length pre)\<rparr>))"
  using assms
proof (induction xs arbitrary: h x rest i rule: rev_induct)
  case Nil
  then show ?case by (simp add: map_upd_triv)
next
  case (snoc a xs)
  define h' where "h' = h(fid \<mapsto> \<lparr>history = H, currentIndex = int (length pre + length xs)\<rparr>)"
  have lt: "i < length H" and pos: "0 < i" and a: "H ! (i - 1) = a"
    using snoc.prems(2,3) by (simp_all add: nth_append)
  have u: "undo_updater h fid = (Some a, h')"
    using undo_updater_entry [of h fid H i, OF snoc.prems(1) lt] pos a snoc.prems(3)
    by (simp add: h'_def)
  have "undo_times (length xs) h' fid =
          (map Some (rev xs), h'(fid \<mapsto> \<lparr>history = H, currentIndex = int (length pre)\<rparr>))"
    using snoc.prems(2) by (intro snoc.IH [of h' _ a "x # rest"]) (simp_all add: h'_def)
  then show ?case
    by (auto simp: u h'_def fun_eq_iff)
qed

lemma redo_times_forth:
  assumes "h fid = Some \<lparr>history = H, currentIndex = int p\<rparr>"
    and "H = pre @ x # ys @ rest" and "p = length pre"
  shows "redo_times (length ys) h fid =
           (map Some ys, h(fid \<mapsto> \<lparr>history = H, currentIndex = int (length pre + length ys)\<rparr>))"
  using assms
proof (induction ys arbitrary: h x pre p)
  case Nil
  then show ?case by (simp add: map_upd_triv)
next
  case (Cons y ys)
  define h' where "h' = h(fid \<mapsto> \<lparr>history = H, currentIndex = int (Suc p)\<rparr>)"
  have lt: "Suc p < length H" and y: "H ! Suc p = y"
    using Cons.prems(2,3) by (simp_all add: nth_append)
  have u: "redo_updater h fid = (Some y, h')"
    using redo_updater_entry [of h fid H p, OF Cons.prems(1)] lt y by (simp add: h'_def)
  have "redo_times (length ys) h' fid =
          (map Some ys,
           h'(fid \<mapsto> \<lparr>history = H, currentIndex = int (length (pre @ [x]) + length ys)\<rparr>))"
    using Cons.prems(2,3) by (intro Cons.IH [of h' "Suc p" "pre @ [x]" y]) (simp_all add: h'_def)
  then show ?case
    by (auto simp: u h'_def fun_eq_iff)
qed

lemma undo_redo_run_alt:
  "undo_redo_run h1 fid c0 cs \<longleftrightarrow>
     fst (undo_times (length cs) h1 fid) = map Some (rev (butlast (c0 # cs))) \<and>
     fst (redo_times (length cs) (snd (undo_times (length cs) h1 fid)) fid) = map Some cs \<and>
     (case snd (redo_times (length cs) (snd (undo_times (length cs) h1 fid)) fid) fid of
        None \<Rightarrow> False
      | Some e \<Rightarrow> js_index (history e) (currentIndex e) = Some (last (c0 # cs)))"
  by (simp add: undo_redo_run_def split_beta Let_def del: butlast.simps last.simps)

lemma undo_redo_run_window:
  assumes "h1 fid = Some \<lparr>history = H, currentIndex = int i\<rparr>" and "i < length H"
  shows "undo_redo_run h1 fid c0 cs \<longleftrightarrow>
           (\<exists>pre rest. H = pre @ (c0 # cs) @ rest \<and> i = length pre + length cs)"
proof
  assume "\<exists>pre rest. H = pre @ (c0 # cs) @ rest \<and> i = length pre + length cs"
  then obtain pre rest where H: "H = pre @ (c0 # cs) @ rest" and i: "i = length pre + length cs"
    by blast
  define xs where "xs = butlast (c0 # cs)"
  define x where "x = last (c0 # cs)"
  have sp: "c0 # cs = xs @ [x]" and lx: "length xs = length cs"
    by (simp_all add: xs_def x_def)
  define h2 where "h2 = h1(fid \<mapsto> \<lparr>history = H, currentIndex = int (length pre)\<rparr>)"
  have "undo_times (length xs) h1 fid = (map Some (rev xs), h2)"
    unfolding h2_def using assms(1)
    by (rule undo_times_back [where x = x and rest = rest]) (simp_all add: H sp i lx)
  then have u: "undo_times (length cs) h1 fid = (map Some (rev xs), h2)"
    by (simp add: lx)
  have r: "redo_times (length cs) h2 fid =
          (map Some cs, h2(fid \<mapsto> \<lparr>history = H, currentIndex = int (length pre + length cs)\<rparr>))"
    by (rule redo_times_forth [where x = c0 and rest = rest]) (simp_all add: h2_def H)
  have "H ! (length pre + length cs) = x"
    unfolding H sp by (simp add: nth_append lx [symmetric])
  then have cur: "js_index H (int (length pre + length cs)) = Some x"
    using assms(2) i by (simp add: js_index_def nat_add_distrib)
  show "undo_redo_run h1 fid c0 cs"
    using cur by (simp add: undo_redo_run_def u r xs_def [symmetric] x_def [symmetric] del: butlast.simps last.simps)
next
  assume "undo_redo_run h1 fid c0 cs"
  then have l1: "fst (undo_times (length cs) h1 fid) = map Some (rev (butlast (c0 # cs)))"
    and l2: "fst (redo_times (length cs) (snd (undo_times (length cs) h1 fid)) fid) = map Some cs"
    and l3: "case snd (redo_times (length cs) (snd (undo_times (length cs) h1 fid)) fid) fid of
        None \<Rightarrow> False
      | Some e \<Rightarrow> js_index (history e) (currentIndex e) = Some (last (c0 # cs))"
    unfolding undo_redo_run_alt by blast+
  define vs where "vs = rev (butlast (c0 # cs))"
  have lv: "length vs = length cs"
    by (simp add: vs_def)
  from l1 have un: "fst (undo_times (length vs) h1 fid) = map Some vs"
    by (simp add: lv vs_def del: butlast.simps)
  define h2 where "h2 = h1(fid \<mapsto> \<lparr>history = H, currentIndex = int (i - length cs)\<rparr>)"
  from undo_times_selected [of h1 fid H i vs, OF assms un]
  have le: "length cs \<le> i" and tk: "take (length cs) (drop (i - length cs) H) = butlast (c0 # cs)"
    and h2: "snd (undo_times (length cs) h1 fid) = h2"
    by (simp_all add: lv vs_def h2_def del: butlast.simps)
  from l2 have re: "fst (redo_times (length cs) h2 fid) = map Some cs"
    by (simp add: h2)
  have "h2 fid = Some \<lparr>history = H, currentIndex = int (i - length cs)\<rparr>"
    and "i - length cs < length H"
    using assms(2) by (simp_all add: h2_def)
  from redo_times_selected [of h2 fid H "i - length cs" cs, OF this re]
  have h3: "snd (redo_times (length cs) h2 fid)
              = h2(fid \<mapsto> \<lparr>history = H, currentIndex = int (i - length cs + length cs)\<rparr>)"
    by blast
  from l3 have "js_index H (int (i - length cs + length cs)) = Some (last (c0 # cs))"
    by (simp add: h2 h3 del: last.simps)
  with le assms(2) have cur: "H ! i = last (c0 # cs)"
    by (simp add: js_index_def)
  have "take (Suc (length cs)) (drop (i - length cs) H)
          = take (length cs) (drop (i - length cs) H) @ [drop (i - length cs) H ! length cs]"
    using le assms(2) by (intro take_Suc_conv_app_nth) simp
  moreover have "drop (i - length cs) H ! length cs = last (c0 # cs)"
    using cur le assms(2) by (simp del: last.simps)
  moreover have "butlast (c0 # cs) @ [last (c0 # cs)] = c0 # cs"
    by (rule append_butlast_last_id) simp
  ultimately have win: "take (Suc (length cs)) (drop (i - length cs) H) = c0 # cs"
    using tk by (simp del: butlast.simps last.simps)
  have "drop (i - length cs) H
          = take (Suc (length cs)) (drop (i - length cs) H)
            @ drop (Suc (length cs)) (drop (i - length cs) H)"
    by (rule append_take_drop_id [symmetric])
  then have "drop (i - length cs) H = (c0 # cs) @ drop (Suc i) H"
    using win le by (simp add: add.commute)
  then have "H = take (i - length cs) H @ (c0 # cs) @ drop (Suc i) H"
    by (metis append_take_drop_id)
  moreover have "i = length (take (i - length cs) H) + length cs"
    using le assms(2) by simp
  ultimately show "\<exists>pre rest. H = pre @ (c0 # cs) @ rest \<and> i = length pre + length cs"
    by blast
qed

subsection \<open>Runs of pushes on histories without equal neighbours\<close>

lemma distinct_adj_take: "distinct_adj xs \<Longrightarrow> distinct_adj (take n xs)"
  by (metis append_take_drop_id distinct_adj_appendD1)

lemma distinct_adj_drop: "distinct_adj xs \<Longrightarrow> distinct_adj (drop n xs)"
  by (metis append_take_drop_id distinct_adj_appendD2)

lemma distinct_adj_slice_last: "distinct_adj xs \<Longrightarrow> distinct_adj (slice_last xs n)"
  by (simp add: slice_last_def distinct_adj_drop)

lemma take_cursor:
  "i < length H \<Longrightarrow> take (Suc i) H = take i H @ [H ! i]"
  by (rule take_Suc_conv_app_nth)

lemma push_spec_adj:
  assumes "entry_ok e" and "distinct_adj (history e)" and "history e ! nat (currentIndex e) \<noteq> c"
  shows "distinct_adj (history (push_spec e c))"
proof -
  define i where "i = nat (currentIndex e)"
  have lt: "i < length (history e)"
    using assms(1) by (auto simp: entry_ok_def i_def)
  have "distinct_adj (take (Suc i) (history e))"
    using assms(2) by (rule distinct_adj_take)
  moreover have "last (take (Suc i) (history e)) = history e ! i"
    using lt by (simp add: take_cursor)
  ultimately have "distinct_adj (take (Suc i) (history e) @ [c])"
    using assms(3) lt by (simp add: distinct_adj_append_iff i_def)
  then show ?thesis
    by (simp add: push_spec_tip tip_def distinct_adj_slice_last i_def)
qed

lemma addHistoryStep_entry_inv:
  assumes "h fid = Some e" and "entry_ok e" and "distinct_adj (history e)"
  shows "\<exists>e'. addHistoryStep h fid c fid = Some e' \<and> entry_ok e' \<and> distinct_adj (history e')"
proof (cases "history e ! nat (currentIndex e) = c")
  case True
  with assms show ?thesis by (simp add: addHistoryStep_spec)
next
  case False
  have "entry_ok (push_spec e c)"
    by (simp add: push_spec_tip tip_ok slice_last_def MAX_HISTORY_STEPS_def)
  with False assms show ?thesis
    by (simp add: addHistoryStep_spec push_spec_adj)
qed

lemma pushes_entry_inv:
  assumes "h fid = Some e" and "entry_ok e" and "distinct_adj (history e)"
  shows "\<exists>e'. pushes h fid cs fid = Some e' \<and> entry_ok e' \<and> distinct_adj (history e')"
  using assms
proof (induction cs arbitrary: h e)
  case Nil
  then show ?case by (simp add: pushes_def)
next
  case (Cons c cs)
  from addHistoryStep_entry_inv [of h fid e c, OF Cons.prems]
  obtain e' where e': "addHistoryStep h fid c fid = Some e'" "entry_ok e'" "distinct_adj (history e')"
    by blast
  from Cons.IH [of "addHistoryStep h fid c" e', OF e'] show ?case
    by (simp add: pushes_def)
qed

lemma slice_last_keep:
  assumes "length S \<le> m"
  shows "slice_last (P @ S) m = slice_last P (m - length S) @ S"
proof -
  have e1: "length (P @ S) - m = length P - (m - length S)"
    using assms by simp
  show ?thesis
    unfolding slice_last_def e1 by simp
qed

lemma slice_last_suffix: "\<exists>Q. B = Q @ slice_last B m"
  by (rule exI [of _ "take (length B - m) B"]) (simp add: slice_last_def)

text \<open>The entry after a run of pushes without equal neighbours.\<close>

lemma pushes_adj:
  assumes "h fid = Some e" and "entry_ok e" and "distinct_adj (c # t)"
  shows "pushes h fid (c # t) =
           (if history e ! nat (currentIndex e) \<noteq> c
            then h(fid \<mapsto> tip (slice_last (take (nat (currentIndex e) + 1) (history e) @ c # t)
                                   MAX_HISTORY_STEPS))
            else if t = [] then h
            else h(fid \<mapsto> tip (slice_last (take (nat (currentIndex e) + 1) (history e) @ t)
                                   MAX_HISTORY_STEPS)))"
proof (cases "history e ! nat (currentIndex e) = c")
  case False
  with assms have "distinct_adj ((history e ! nat (currentIndex e)) # c # t)"
    by simp
  from pushes_from_cursor [of h fid e c t, OF assms(1,2) this] False show ?thesis
    by simp
next
  case True
  with assms(1,2) have noop: "addHistoryStep h fid c = h"
    by (simp add: addHistoryStep_spec)
  show ?thesis
  proof (cases t)
    case Nil
    with True noop show ?thesis by (simp add: pushes_def)
  next
    case (Cons d ds)
    with assms(3) True have "distinct_adj ((history e ! nat (currentIndex e)) # d # ds)"
      by simp
    from pushes_from_cursor [of h fid e d ds, OF assms(1,2) this] True noop Cons show ?thesis
      by (simp add: pushes_def)
  qed
qed

subsection \<open>The law on one entry\<close>

lemma entry_eta:
  "entry_ok e \<Longrightarrow> e = \<lparr>history = history e, currentIndex = int (nat (currentIndex e))\<rparr>"
  by (simp add: entry_ok_def)

lemma cursor_fits_iff:
  assumes "entry_ok e"
  shows "cursor_fits e c0 c1 \<longleftrightarrow>
           history e ! nat (currentIndex e) = c0 \<or>
           history e ! nat (currentIndex e) = c1 \<and> 0 < nat (currentIndex e) \<and>
           history e ! (nat (currentIndex e) - 1) = c0"
  using assms
  by (auto simp: cursor_fits_def js_index_def entry_ok_def nat_diff_distrib')

lemma tip_entry:
  "hs \<noteq> [] \<Longrightarrow> tip hs = \<lparr>history = hs, currentIndex = int (length hs - 1)\<rparr>"
  by (cases hs) (simp_all add: tip_def)

text \<open>The law on a store whose cursor is on the last snapshot.\<close>

lemma undo_redo_run_tip:
  assumes "H \<noteq> []"
  shows "undo_redo_run (h(fid \<mapsto> tip H)) fid c0 cs \<longleftrightarrow> (\<exists>pre. H = pre @ c0 # cs)"
proof -
  have e: "(h(fid \<mapsto> tip H)) fid = Some \<lparr>history = H, currentIndex = int (length H - 1)\<rparr>"
    using assms by (simp add: tip_entry)
  have lt: "length H - 1 < length H"
    using assms by simp
  have "undo_redo_run (h(fid \<mapsto> tip H)) fid c0 cs \<longleftrightarrow>
          (\<exists>pre rest. H = pre @ (c0 # cs) @ rest \<and> length H - 1 = length pre + length cs)"
    using e lt by (rule undo_redo_run_window)
  also have "\<dots> \<longleftrightarrow> (\<exists>pre. H = pre @ c0 # cs)"
  proof
    assume "\<exists>pre rest. H = pre @ (c0 # cs) @ rest \<and> length H - 1 = length pre + length cs"
    then obtain pre rest where H: "H = pre @ (c0 # cs) @ rest"
      and l: "length H - 1 = length pre + length cs"
      by blast
    from H have "length H = length pre + Suc (length cs) + length rest"
      by simp
    with l have "rest = []"
      by simp
    with H show "\<exists>pre. H = pre @ c0 # cs"
      by auto
  next
    assume "\<exists>pre. H = pre @ c0 # cs"
    then obtain pre where "H = pre @ c0 # cs"
      by blast
    then have "H = pre @ (c0 # cs) @ [] \<and> length H - 1 = length pre + length cs"
      by simp
    then show "\<exists>pre rest. H = pre @ (c0 # cs) @ rest \<and> length H - 1 = length pre + length cs"
      by blast
  qed
  finally show ?thesis .
qed


lemma slice_last_nonempty:
  assumes "xs \<noteq> []" and "0 < n"
  shows "slice_last xs n \<noteq> []"
proof -
  from assms have "0 < min (length xs) n"
    by simp
  then have "0 < length (slice_last xs n)"
    by (simp only: length_slice_last)
  then show ?thesis
    by auto
qed

lemma law_iff_entry:
  assumes h0: "h0 fid = Some e0" and ok: "entry_ok e0" and adj: "distinct_adj (history e0)"
  shows "undo_redo_run (pushes h0 fid (c1 # t)) fid c0 (c1 # t) \<longleftrightarrow>
           distinct_adj (c0 # c1 # t) \<and> length (c1 # t) < MAX_HISTORY_STEPS \<and>
           cursor_fits e0 c0 c1"
proof -
  define H0 where "H0 = history e0"
  define i0 where "i0 = nat (currentIndex e0)"
  define x where "x = H0 ! i0"
  define cs where "cs = c1 # t"
  have lt0: "i0 < length H0"
    using ok by (auto simp: entry_ok_def i0_def H0_def)
  have e0: "h0 fid = Some \<lparr>history = H0, currentIndex = int i0\<rparr>"
    using h0 entry_eta [OF ok] by (simp add: H0_def i0_def)
  have fits: "cursor_fits e0 c0 c1 \<longleftrightarrow> x = c0 \<or> x = c1 \<and> 0 < i0 \<and> H0 ! (i0 - 1) = c0"
    using cursor_fits_iff [OF ok] by (simp add: x_def H0_def i0_def)
  have tk: "take (Suc i0) H0 = take i0 H0 @ [x]"
    using lt0 by (simp add: take_cursor x_def)
  have cap: "length (slice_last B MAX_HISTORY_STEPS) \<le> 50" for B :: "string list"
    by (simp add: slice_last_def MAX_HISTORY_STEPS_def)
  have push: "distinct_adj cs \<Longrightarrow> pushes h0 fid cs =
           (if x \<noteq> c1
            then h0(fid \<mapsto> tip (slice_last (take (i0 + 1) H0 @ cs) MAX_HISTORY_STEPS))
            else if t = [] then h0
            else h0(fid \<mapsto> tip (slice_last (take (i0 + 1) H0 @ t) MAX_HISTORY_STEPS)))"
    unfolding cs_def x_def H0_def i0_def using h0 ok by (rule pushes_adj)
  show ?thesis
    unfolding cs_def [symmetric]
  proof
    assume law: "undo_redo_run (pushes h0 fid cs) fid c0 cs"
    obtain e1 where e1: "pushes h0 fid cs fid = Some e1" "entry_ok e1" "distinct_adj (history e1)"
      using pushes_entry_inv [of h0 fid e0 cs, OF h0 ok adj] by blast
    have a: "pushes h0 fid cs fid = Some \<lparr>history = history e1, currentIndex = int (nat (currentIndex e1))\<rparr>"
      using e1(1) entry_eta [OF e1(2)] by simp
    have b: "nat (currentIndex e1) < length (history e1)"
      using e1(2) by (auto simp: entry_ok_def)
    from law undo_redo_run_window [of "pushes h0 fid cs" fid "history e1" "nat (currentIndex e1)" c0 cs, OF a b]
    have "\<exists>pre rest. history e1 = pre @ (c0 # cs) @ rest \<and>
        nat (currentIndex e1) = length pre + length cs"
      by blast
    then obtain pre rest where "history e1 = pre @ (c0 # cs) @ rest"
      by blast
    with e1(3) have dadj: "distinct_adj (c0 # cs)"
      by (metis distinct_adj_appendD1 distinct_adj_appendD2)
    then have dcs: "distinct_adj cs" and neq: "c0 \<noteq> c1"
      by (simp_all add: cs_def)
    show "distinct_adj (c0 # cs) \<and> length cs < MAX_HISTORY_STEPS \<and> cursor_fits e0 c0 c1"
    proof (cases "x = c1")
      case False
      define H1 where "H1 = slice_last (take (i0 + 1) H0 @ cs) MAX_HISTORY_STEPS"
      have ne1: "H1 \<noteq> []"
        unfolding H1_def by (rule slice_last_nonempty) (simp_all add: cs_def MAX_HISTORY_STEPS_def)
      from False have "pushes h0 fid cs = h0(fid \<mapsto> tip H1)"
        by (simp add: push [OF dcs] H1_def)
      with law ne1 obtain pre where pre: "H1 = pre @ c0 # cs"
        by (auto simp: undo_redo_run_tip)
      obtain Q where "take (i0 + 1) H0 @ cs = Q @ H1"
        unfolding H1_def using slice_last_suffix by blast
      then have "take i0 H0 @ (x # cs) = (Q @ pre) @ (c0 # cs)"
        by (simp add: tk pre)
      then have "take i0 H0 = Q @ pre \<and> x # cs = c0 # cs"
        by (intro append_eq_append_conv [THEN iffD1]) simp_all
      then have "x = c0"
        by simp
      moreover have "length H1 \<le> 50"
        unfolding H1_def by (rule cap)
      then have "length cs < MAX_HISTORY_STEPS"
        using pre by (simp add: MAX_HISTORY_STEPS_def)
      ultimately show ?thesis
        using dadj fits by simp
    next
      case True
      show ?thesis
      proof (cases "t = []")
        case t: True
        from True t have "pushes h0 fid cs = h0"
          by (simp add: push [OF dcs])
        with law undo_redo_run_window [of h0 fid H0 i0 c0 cs, OF e0 lt0]
        obtain pre rest where H0: "H0 = pre @ (c0 # cs) @ rest"
          and i0: "i0 = length pre + length cs"
          by auto
        from H0 i0 t have "0 < i0" and "H0 ! (i0 - 1) = c0"
          by (simp_all add: cs_def nth_append)
        with True dadj fits t show ?thesis
          by (simp add: cs_def MAX_HISTORY_STEPS_def)
      next
        case t: False
        define H1 where "H1 = slice_last (take (i0 + 1) H0 @ t) MAX_HISTORY_STEPS"
        have ne1: "H1 \<noteq> []"
          unfolding H1_def using t
          by (intro slice_last_nonempty) (simp_all add: MAX_HISTORY_STEPS_def)
        from True t have "pushes h0 fid cs = h0(fid \<mapsto> tip H1)"
          by (simp add: push [OF dcs] H1_def)
        with law ne1 obtain pre where pre: "H1 = pre @ c0 # cs"
          by (auto simp: undo_redo_run_tip)
        obtain Q where "take (i0 + 1) H0 @ t = Q @ H1"
          unfolding H1_def using slice_last_suffix by blast
        then have "take i0 H0 @ cs = (Q @ pre @ [c0]) @ cs"
          using True by (simp add: tk pre cs_def)
        then have q: "take i0 H0 = Q @ pre @ [c0]"
          by (simp only: append_same_eq)
        then have "length (take i0 H0) = length (Q @ pre @ [c0])"
          by simp
        with lt0 have li: "i0 = Suc (length (Q @ pre))"
          by simp
        then have pos: "0 < i0"
          by simp
        have "H0 ! (i0 - 1) = take i0 H0 ! (i0 - 1)"
          using pos by simp
        also have "\<dots> = (Q @ pre @ [c0]) ! length (Q @ pre)"
          using q li by simp
        also have "\<dots> = c0"
          by (simp add: nth_append)
        finally have "H0 ! (i0 - 1) = c0" .
        moreover have "length H1 \<le> 50"
          unfolding H1_def by (rule cap)
        then have "length cs < MAX_HISTORY_STEPS"
          using pre by (simp add: MAX_HISTORY_STEPS_def)
        ultimately show ?thesis
          using True pos dadj fits by simp
      qed
    qed
  next
    assume rhs: "distinct_adj (c0 # cs) \<and> length cs < MAX_HISTORY_STEPS \<and> cursor_fits e0 c0 c1"
    then have dcs: "distinct_adj cs" and neq: "c0 \<noteq> c1" and len: "length (c0 # cs) \<le> MAX_HISTORY_STEPS"
      and f: "x = c0 \<or> x = c1 \<and> 0 < i0 \<and> H0 ! (i0 - 1) = c0"
      using fits by (simp_all add: cs_def)
    show "undo_redo_run (pushes h0 fid cs) fid c0 cs"
    proof (cases "x = c0")
      case True
      define H1 where "H1 = slice_last (take (i0 + 1) H0 @ cs) MAX_HISTORY_STEPS"
      have "take (i0 + 1) H0 @ cs = take i0 H0 @ (c0 # cs)"
        using True by (simp add: tk)
      then have H1: "H1 = slice_last (take i0 H0) (MAX_HISTORY_STEPS - length (c0 # cs)) @ (c0 # cs)"
        unfolding H1_def using len by (simp only: slice_last_keep)
      then have ne1: "H1 \<noteq> []"
        by simp
      from True neq have "pushes h0 fid cs = h0(fid \<mapsto> tip H1)"
        by (simp add: push [OF dcs] H1_def)
      with H1 ne1 show ?thesis
        by (auto simp: undo_redo_run_tip)
    next
      case False
      with f have x: "x = c1" and pos: "0 < i0" and c0: "H0 ! (i0 - 1) = c0"
        by simp_all
      have tk0: "take i0 H0 = take (i0 - 1) H0 @ [c0]"
        using take_cursor [of "i0 - 1" H0] pos lt0 c0 by simp
      show ?thesis
      proof (cases "t = []")
        case True
        with x have p: "pushes h0 fid cs = h0"
          by (simp add: push [OF dcs])
        have "H0 = take (i0 + 1) H0 @ drop (i0 + 1) H0"
          by simp
        then have "H0 = take (i0 - 1) H0 @ (c0 # cs) @ drop (i0 + 1) H0"
          using True x by (simp add: tk tk0 cs_def)
        moreover have "i0 = length (take (i0 - 1) H0) + length cs"
          using True pos lt0 by (simp add: cs_def)
        ultimately have "\<exists>pre rest. H0 = pre @ (c0 # cs) @ rest \<and> i0 = length pre + length cs"
          by blast
        with undo_redo_run_window [of h0 fid H0 i0 c0 cs, OF e0 lt0] show ?thesis
          by (simp add: p)
      next
        case t: False
        define H1 where "H1 = slice_last (take (i0 + 1) H0 @ t) MAX_HISTORY_STEPS"
        have "take (i0 + 1) H0 @ t = take (i0 - 1) H0 @ (c0 # cs)"
          using x by (simp add: tk tk0 cs_def)
        then have H1: "H1 = slice_last (take (i0 - 1) H0) (MAX_HISTORY_STEPS - length (c0 # cs)) @ (c0 # cs)"
          unfolding H1_def using len by (simp only: slice_last_keep)
        then have ne1: "H1 \<noteq> []"
          by simp
        from x t have "pushes h0 fid cs = h0(fid \<mapsto> tip H1)"
          by (simp add: push [OF dcs] H1_def)
        with H1 ne1 show ?thesis
          by (auto simp: undo_redo_run_tip)
      qed
    qed
  qed
qed


text \<open>Stores without equal neighbours in their histories.\<close>

lemma initialize_entry:
  assumes "store_ok h" and "store_adj h"
  shows "\<exists>e. initializeHistory h fid c fid = Some e \<and> entry_ok e \<and> distinct_adj (history e)"
proof (cases "h fid")
  case None
  then show ?thesis
    by (simp add: initializeHistory_last fresh_entry_ok) (simp add: fresh_entry_def)
next
  case (Some e)
  with assms have "entry_ok e" and "distinct_adj (history e)"
    by (simp_all add: store_ok_def store_adj_def)
  with Some show ?thesis
    by (simp add: initializeHistory_last fresh_entry_ok) (simp add: fresh_entry_def)
qed

lemma store_adj_apply:
  assumes "store_ok h" and "store_adj h"
  shows "store_adj (apply_op h op)"
  unfolding store_adj_def
proof (intro allI impI)
  fix fid e
  assume r: "apply_op h op fid = Some e"
  show "distinct_adj (history e)"
  proof (cases "fid = op_target op")
    case False
    have "apply_op h op fid = h fid"
      using False
      by (cases op)
         (simp_all add: initializeHistory_def addHistoryStep_def snd_undo snd_redo
            resetFileHistory_def deleteFileHistory_def Let_def split: option.splits)
    with r assms(2) show ?thesis
      by (simp add: store_adj_def)
  next
    case True
    show ?thesis
    proof (cases op)
      case (Initialize f c)
      with True r initialize_entry [OF assms, of f c] show ?thesis
        by auto
    next
      case (Push f c)
      show ?thesis
      proof (cases "h f")
        case None
        with Push True r show ?thesis
          by (auto simp: addHistoryStep_def slice_to_def MAX_HISTORY_STEPS_def)
      next
        case (Some e0)
        with assms have "entry_ok e0" and "distinct_adj (history e0)"
          by (simp_all add: store_ok_def store_adj_def)
        from addHistoryStep_entry_inv [of h f e0 c, OF Some this] Push True r show ?thesis
          by auto
      qed
    next
      case (Undo f)
      with True r assms(2) show ?thesis
        by (auto simp: snd_undo store_adj_def split: option.splits if_splits)
    next
      case (Redo f)
      with True r assms(2) show ?thesis
        by (auto simp: snd_redo store_adj_def split: option.splits if_splits)
    next
      case (Reset f c)
      with True r show ?thesis
        by (auto simp: resetFileHistory_def fresh_entry_def)
    next
      case (Discard f)
      with True r show ?thesis
        by (simp add: deleteFileHistory_def)
    qed
  qed
qed

lemma store_inv_run:
  "store_ok h \<Longrightarrow> store_adj h \<Longrightarrow>
   store_ok (foldl apply_op h ops) \<and> store_adj (foldl apply_op h ops)"
  by (induction ops arbitrary: h) (simp_all add: store_ok_apply store_adj_apply)

lemma undo_redo_law_stores:
  assumes "store_ok h" and "store_adj h" and "cs \<noteq> []"
  shows "undo_redo_law h fid c0 cs \<longleftrightarrow>
           distinct_adj (c0 # cs) \<and> length cs < MAX_HISTORY_STEPS \<and>
           (\<exists>e. initializeHistory h fid c0 fid = Some e \<and> cursor_fits e c0 (hd cs))"
proof -
  obtain e0 where e0: "initializeHistory h fid c0 fid = Some e0" "entry_ok e0"
    "distinct_adj (history e0)"
    using initialize_entry [OF assms(1,2)] by blast
  from assms(3) obtain c1 t where cs: "cs = c1 # t"
    by (cases cs) auto
  from law_iff_entry [of "initializeHistory h fid c0" fid e0 c1 t c0, OF e0] e0(1)
  show ?thesis
    by (simp add: undo_redo_law_def cs)
qed



text \<open>
  C1 (as amended). For contents \<open>c0, c1, \<dots>, cn\<close> with \<open>n \<ge> 1\<close>, on every store whose
  entries satisfy the index invariant and hold no two equal snapshots next to each other,
  and so on every store reached from the empty one by operations of the store: after
  \<open>initialize(id, c0)\<close> and the pushes of \<open>c1, \<dots>, cn\<close>, the updaters of \<open>n\<close> undos
  move the cursor back over \<open>c(n-1), \<dots>, c0\<close> in this order, those of \<open>n\<close> redos move
  it forward over \<open>c1, \<dots>, cn\<close>, and the cursor ends on \<open>cn\<close>, if and only if no two
  consecutive contents are equal, \<open>n \<le> 49\<close>, and \<open>initialize\<close> leaves the cursor on a
  snapshot equal to \<open>c0\<close>, or on one equal to \<open>c1\<close> directly behind a snapshot equal
  to \<open>c0\<close>. The law is about the store: it says nothing of what the calls of \<open>undo\<close>
  and \<open>redo\<close> return.
\<close>

theorem undo_redo_law_iff:
  "(store_ok h \<and> store_adj h \<and> cs \<noteq> [] \<longrightarrow>
      (undo_redo_law h fid c0 cs \<longleftrightarrow>
         distinct_adj (c0 # cs) \<and> length cs < MAX_HISTORY_STEPS \<and>
         (\<exists>e. initializeHistory h fid c0 fid = Some e \<and> cursor_fits e c0 (hd cs)))) \<and>
   (cs \<noteq> [] \<longrightarrow>
      (undo_redo_law (foldl apply_op Map.empty ops) fid c0 cs \<longleftrightarrow>
         distinct_adj (c0 # cs) \<and> length cs < MAX_HISTORY_STEPS \<and>
         (\<exists>e. initializeHistory (foldl apply_op Map.empty ops) fid c0 fid = Some e \<and>
              cursor_fits e c0 (hd cs))))"
proof (intro conjI impI)
  assume "store_ok h \<and> store_adj h \<and> cs \<noteq> []"
  then show "undo_redo_law h fid c0 cs \<longleftrightarrow>
         distinct_adj (c0 # cs) \<and> length cs < MAX_HISTORY_STEPS \<and>
         (\<exists>e. initializeHistory h fid c0 fid = Some e \<and> cursor_fits e c0 (hd cs))"
    by (intro undo_redo_law_stores) simp_all
next
  assume ne: "cs \<noteq> []"
  have "store_ok (foldl apply_op Map.empty ops) \<and> store_adj (foldl apply_op Map.empty ops)"
    by (rule store_inv_run) (simp_all add: store_ok_def store_adj_def)
  with ne show "undo_redo_law (foldl apply_op Map.empty ops) fid c0 cs \<longleftrightarrow>
         distinct_adj (c0 # cs) \<and> length cs < MAX_HISTORY_STEPS \<and>
         (\<exists>e. initializeHistory (foldl apply_op Map.empty ops) fid c0 fid = Some e \<and>
              cursor_fits e c0 (hd cs))"
    by (intro undo_redo_law_stores) simp_all
qed


text \<open>
  The law holds from the empty store, and on a kept entry whose cursor is on \<open>c1\<close>
  behind \<open>c0\<close>; it fails on a kept entry whose cursor is on another snapshot.
\<close>

lemma run_kept_entry:
  "foldl apply_op Map.empty [Initialize ''doc'' ''a'', Push ''doc'' ''b'', Undo ''doc'']
     = Map.empty(''doc'' \<mapsto> \<lparr>history = [''a'', ''b''], currentIndex = 0\<rparr>)"
  by (simp add: initializeHistory_def addHistoryStep_def snd_undo fresh_entry_def js_index_def
        slice_to_def MAX_HISTORY_STEPS_def)

lemma run_behind_cursor:
  "foldl apply_op Map.empty
     [Initialize ''doc'' ''a'', Push ''doc'' ''b'', Push ''doc'' ''a'', Undo ''doc'']
     = Map.empty(''doc'' \<mapsto> \<lparr>history = [''a'', ''b'', ''a''], currentIndex = 1\<rparr>)"
  by (simp add: initializeHistory_def addHistoryStep_def snd_undo fresh_entry_def js_index_def
        slice_to_def MAX_HISTORY_STEPS_def)

theorem undo_redo_law_iff_witness:
  "undo_redo_law Map.empty ''doc'' ''a'' [''b'', ''c''] \<and>
   undo_redo_law
     (foldl apply_op Map.empty
        [Initialize ''doc'' ''a'', Push ''doc'' ''b'', Push ''doc'' ''a'', Undo ''doc''])
     ''doc'' ''a'' [''b'', ''c''] \<and>
   \<not> undo_redo_law
       (foldl apply_op Map.empty [Initialize ''doc'' ''a'', Push ''doc'' ''b'', Undo ''doc''])
       ''doc'' ''b'' [''c'']"
proof (intro conjI)
  have inv: "store_ok Map.empty \<and> store_adj Map.empty \<and> [''b'', ''c''] \<noteq> []"
    by (simp add: store_ok_def store_adj_def)
  from undo_redo_law_iff [of Map.empty "[''b'', ''c'']" "''doc''" "''a''" "[]",
         THEN conjunct1, THEN mp, OF inv]
  show "undo_redo_law Map.empty ''doc'' ''a'' [''b'', ''c'']"
    by (simp add: initializeHistory_def fresh_entry_def cursor_fits_def js_index_def
          MAX_HISTORY_STEPS_def)
next
  have ne: "[''b'', ''c''] \<noteq> []"
    by simp
  from undo_redo_law_iff [of Map.empty "[''b'', ''c'']" "''doc''" "''a''"
         "[Initialize ''doc'' ''a'', Push ''doc'' ''b'', Push ''doc'' ''a'', Undo ''doc'']",
         THEN conjunct2, THEN mp, OF ne]
  show "undo_redo_law
     (foldl apply_op Map.empty
        [Initialize ''doc'' ''a'', Push ''doc'' ''b'', Push ''doc'' ''a'', Undo ''doc''])
     ''doc'' ''a'' [''b'', ''c'']"
    unfolding run_behind_cursor
    by (simp add: initializeHistory_def cursor_fits_def js_index_def MAX_HISTORY_STEPS_def)
next
  have ne: "[''c''] \<noteq> []"
    by simp
  from undo_redo_law_iff [of Map.empty "[''c'']" "''doc''" "''b''"
         "[Initialize ''doc'' ''a'', Push ''doc'' ''b'', Undo ''doc'']",
         THEN conjunct2, THEN mp, OF ne]
  show "\<not> undo_redo_law
       (foldl apply_op Map.empty [Initialize ''doc'' ''a'', Push ''doc'' ''b'', Undo ''doc''])
       ''doc'' ''b'' [''c'']"
    unfolding run_kept_entry
    by (simp add: initializeHistory_def cursor_fits_def js_index_def MAX_HISTORY_STEPS_def)
qed



text \<open>
  Three runs on which the law fails, with what the last undo returns when its updater
  has run (it returns \<^verbatim>\<open>undefined\<close> when it has not). With \<open>c1 = c0\<close> the push is
  dropped and the undo has nothing to step back to. After \<open>initialize a, push b, undo\<close>
  the call \<open>initialize(id, b)\<close> keeps the entry, with the cursor on \<open>a\<close>; the push
  of \<open>c\<close> truncates the history behind \<open>a\<close> and the undo steps back to \<open>a\<close>, not to
  \<open>b\<close>. With 51 pairwise different contents the cap has dropped \<open>c0\<close>, and the 50th
  undo finds the cursor on the first snapshot.
\<close>

lemma undo_at_start:
  assumes "h fid = Some \<lparr>history = H, currentIndex = 0\<rparr>"
  shows "undo updaterRan h fid = (None, h)"
  using assms by (simp add: undo_def undo_updater_def)

lemma fifty_pushes:
  "\<not> undo_redo_law Map.empty ''doc'' [] (map letters [1..<51]) \<and>
   fst (undo True
          (snd (undo_times 49
                  (pushes (initializeHistory Map.empty ''doc'' []) ''doc''
                     (map letters [1..<51])) ''doc'')) ''doc'') = None"
proof -
  define cs where "cs = map letters [1..<51]"
  define h0 where "h0 = initializeHistory Map.empty ''doc'' []"
  have lcs: "length cs = 50" and ne: "cs \<noteq> []"
    by (simp_all add: cs_def)
  have law: "\<not> undo_redo_law Map.empty ''doc'' [] cs"
    using undo_redo_law_stores [of Map.empty cs "''doc''" "[]"] ne lcs
    by (simp add: store_ok_def store_adj_def MAX_HISTORY_STEPS_def)
  have all: "[] # cs = map letters [0..<51]"
    unfolding cs_def by (subst (2) upt_rec) (simp add: letters_def)
  have "inj letters"
    by (rule injI) (metis letters_def length_replicate)
  then have "distinct (map letters [0..<51])"
    by (simp add: distinct_map inj_on_def)
  then have adj: "distinct_adj ([] # cs)"
    unfolding all by (rule distinct_adj_distinct)
  have h0: "h0 ''doc'' = Some (tip [[]])"
    by (simp add: h0_def initializeHistory_def fresh_entry_def tip_def)
  have "pushes h0 ''doc'' cs = h0(''doc'' \<mapsto> tip (slice_last ([[]] @ cs) MAX_HISTORY_STEPS))"
    using h0 adj by (intro pushes_tip) (simp_all add: MAX_HISTORY_STEPS_def)
  moreover have "slice_last ([[]] @ cs) MAX_HISTORY_STEPS = cs"
    by (simp add: slice_last_def lcs MAX_HISTORY_STEPS_def)
  ultimately have p: "pushes h0 ''doc'' cs = h0(''doc'' \<mapsto> \<lparr>history = cs, currentIndex = 49\<rparr>)"
    by (simp add: tip_def lcs)
  have sp: "cs = [] @ butlast cs @ last cs # []"
    using ne by simp
  have "undo_times (length (butlast cs)) (pushes h0 ''doc'' cs) ''doc'' =
          (map Some (rev (butlast cs)),
           (pushes h0 ''doc'' cs)(''doc'' \<mapsto> \<lparr>history = cs, currentIndex = int (length ([]::string list))\<rparr>))"
    by (rule undo_times_back [OF _ sp]) (simp_all add: p lcs)
  then have "snd (undo_times 49 (pushes h0 ''doc'' cs) ''doc'') ''doc''
               = Some \<lparr>history = cs, currentIndex = 0\<rparr>"
    by (simp add: lcs)
  then have "undo True (snd (undo_times 49 (pushes h0 ''doc'' cs) ''doc'')) ''doc''
               = (None, snd (undo_times 49 (pushes h0 ''doc'' cs) ''doc''))"
    by (rule undo_at_start)
  with law show ?thesis
    unfolding cs_def [symmetric] h0_def [symmetric] by simp
qed

theorem undo_redo_law_counterexample:
  "\<not> undo_redo_law Map.empty ''doc'' ''a'' [''a''] \<and>
   fst (undo True (pushes (initializeHistory Map.empty ''doc'' ''a'') ''doc'' [''a'']) ''doc'')
     = None \<and>
   \<not> undo_redo_law
       (foldl apply_op Map.empty [Initialize ''doc'' ''a'', Push ''doc'' ''b'', Undo ''doc''])
       ''doc'' ''b'' [''c''] \<and>
   fst (undo True
          (pushes
             (initializeHistory
                (foldl apply_op Map.empty
                   [Initialize ''doc'' ''a'', Push ''doc'' ''b'', Undo ''doc''])
                ''doc'' ''b'')
             ''doc'' [''c''])
          ''doc'')
     = Some ''a'' \<and>
   \<not> undo_redo_law Map.empty ''doc'' [] (map letters [1..<51]) \<and>
   fst (undo True
          (snd (undo_times 49
                  (pushes (initializeHistory Map.empty ''doc'' []) ''doc''
                     (map letters [1..<51])) ''doc'')) ''doc'') = None"
proof -
  have "\<not> undo_redo_law Map.empty ''doc'' ''a'' [''a'']"
    using undo_redo_law_stores [of Map.empty "[''a'']" "''doc''" "''a''"]
    by (simp add: store_ok_def store_adj_def)
  moreover have
    "fst (undo True (pushes (initializeHistory Map.empty ''doc'' ''a'') ''doc'' [''a'']) ''doc'')
       = None"
    by (simp add: undo_def undo_updater_def pushes_def initializeHistory_def addHistoryStep_def
          fresh_entry_def js_index_def)
  moreover have "\<not> undo_redo_law
       (foldl apply_op Map.empty [Initialize ''doc'' ''a'', Push ''doc'' ''b'', Undo ''doc''])
       ''doc'' ''b'' [''c'']"
    unfolding run_kept_entry
    using undo_redo_law_stores
            [of "Map.empty(''doc'' \<mapsto> \<lparr>history = [''a'', ''b''], currentIndex = 0\<rparr>)"
                "[''c'']" "''doc''" "''b''"]
    by (simp add: store_ok_def store_adj_def entry_ok_def initializeHistory_def cursor_fits_def
          js_index_def)
  moreover have
    "fst (undo True
            (pushes
               (initializeHistory
                  (foldl apply_op Map.empty
                     [Initialize ''doc'' ''a'', Push ''doc'' ''b'', Undo ''doc''])
                  ''doc'' ''b'')
               ''doc'' [''c''])
            ''doc'')
       = Some ''a''"
    unfolding run_kept_entry
    by (simp add: undo_def undo_updater_def pushes_def initializeHistory_def addHistoryStep_def
          js_index_def slice_to_def MAX_HISTORY_STEPS_def)
  ultimately show ?thesis
    using fifty_pushes by simp
qed

section \<open>Operations on an id without entry (C2)\<close>

text \<open>
  C2 (as amended). On an id without entry, \<open>undo\<close> and \<open>redo\<close> return nothing and
  leave the store as it is, \<open>getHistoryState\<close> answers false and false (also for no id
  at all), \<open>deleteFileHistory\<close> leaves the store as it is, and \<open>initializeHistory\<close>,
  \<open>resetFileHistory\<close> and also \<open>addHistoryStep\<close> create the entry with the single
  snapshot \<open>c\<close> and \<open>currentIndex = 0\<close>. No operation has a failing branch.
\<close>

theorem unknown_id_behaviour:
  assumes "h fid = None"
  shows "undo updaterRan h fid = (None, h) \<and> redo updaterRan h fid = (None, h) \<and>
         getHistoryState h (Some fid) = \<lparr>canUndo = False, canRedo = False\<rparr> \<and>
         getHistoryState h None = \<lparr>canUndo = False, canRedo = False\<rparr> \<and>
         deleteFileHistory h fid = h \<and>
         initializeHistory h fid c = h(fid \<mapsto> \<lparr>history = [c], currentIndex = 0\<rparr>) \<and>
         resetFileHistory h fid c = h(fid \<mapsto> \<lparr>history = [c], currentIndex = 0\<rparr>) \<and>
         addHistoryStep h fid c = h(fid \<mapsto> \<lparr>history = [c], currentIndex = 0\<rparr>)"
proof (intro conjI)
  show "undo updaterRan h fid = (None, h)" "redo updaterRan h fid = (None, h)"
    using assms by (simp_all add: undo_def redo_def undo_updater_def redo_updater_def)
  show "getHistoryState h (Some fid) = \<lparr>canUndo = False, canRedo = False\<rparr>"
    "getHistoryState h None = \<lparr>canUndo = False, canRedo = False\<rparr>"
    using assms by (simp_all add: getHistoryState_def)
  show "deleteFileHistory h fid = h"
    using assms by (simp add: deleteFileHistory_def fun_upd_idem)
  show "initializeHistory h fid c = h(fid \<mapsto> \<lparr>history = [c], currentIndex = 0\<rparr>)"
    "resetFileHistory h fid c = h(fid \<mapsto> \<lparr>history = [c], currentIndex = 0\<rparr>)"
    using assms by (simp_all add: initializeHistory_def resetFileHistory_def fresh_entry_def)
  show "addHistoryStep h fid c = h(fid \<mapsto> \<lparr>history = [c], currentIndex = 0\<rparr>)"
    using assms by (simp add: addHistoryStep_def slice_to_def MAX_HISTORY_STEPS_def)
qed

theorem unknown_id_behaviour_witness:
  "undo True Map.empty ''doc'' = (None, Map.empty) \<and>
   redo True Map.empty ''doc'' = (None, Map.empty) \<and>
   getHistoryState Map.empty (Some ''doc'') = \<lparr>canUndo = False, canRedo = False\<rparr> \<and>
   deleteFileHistory Map.empty ''doc'' = Map.empty \<and>
   addHistoryStep Map.empty ''doc'' ''c'' = Map.empty(''doc'' \<mapsto> \<lparr>history = [''c''], currentIndex = 0\<rparr>)"
  using unknown_id_behaviour [of Map.empty "''doc''" True "''c''"] by simp

text \<open>
  Push on an unknown id is not a no-op: the updater starts from the default entry
  \<^verbatim>\<open>{ history: [""], currentIndex: -1 }\<close> ("ensure history exists") and stores a new one.
\<close>

theorem push_unknown_id_counterexample:
  "Map.empty ''doc'' = None \<and>
   addHistoryStep Map.empty ''doc'' ''c'' ''doc'' = Some \<lparr>history = [''c''], currentIndex = 0\<rparr> \<and>
   addHistoryStep Map.empty ''doc'' ''c'' \<noteq> Map.empty"
proof -
  have "addHistoryStep Map.empty ''doc'' ''c'' ''doc'' = Some \<lparr>history = [''c''], currentIndex = 0\<rparr>"
    by (simp add: addHistoryStep_def slice_to_def MAX_HISTORY_STEPS_def)
  moreover from this have "addHistoryStep Map.empty ''doc'' ''c'' \<noteq> Map.empty"
    by (metis option.distinct(1))
  ultimately show ?thesis by simp
qed

section \<open>The transcript stays sorted (C6)\<close>

lemma sorted_sortByTimestamp: "sorted (map timestamp (sortByTimestamp msgs))"
  by (simp add: sortByTimestamp_def)

lemma mset_sortByTimestamp: "mset (sortByTimestamp msgs) = mset msgs"
  by (simp add: sortByTimestamp_def)

lemma set_sortByTimestamp: "set (sortByTimestamp msgs) = set msgs"
  by (simp add: sortByTimestamp_def)

text \<open>
  C6. After each operation that sets the chat transcript (the initial load from storage,
  appending a message, deleting a message, replacing the welcome message, both steps of
  edit-and-regenerate, and the reply of a new message) the transcript is sorted by
  timestamp ascending, whatever the order of the timestamps before and whatever the
  timestamp of the message inserted or rewritten.
\<close>

theorem transcript_sorted:
  "sorted (map timestamp (loadChatMessages saved)) \<and>
   sorted (map timestamp (addMessageToList prev m)) \<and>
   sorted (map timestamp (deleteChatMessage prev messageId)) \<and>
   sorted (map timestamp (addWelcomeMessage prev fileName isNewFile newId now)) \<and>
   (case editAndRegenerate_prepare prev messageId newText now img url of
      None \<Rightarrow> True
    | Some msgs \<Rightarrow> sorted (map timestamp msgs)) \<and>
   sorted (map timestamp (editAndRegenerate_insert prev messageId m)) \<and>
   sorted (map timestamp (chatMessages (sendNewMessage_resolved st af aiResult newId now)))"
proof (intro conjI)
  show "sorted (map timestamp (loadChatMessages saved))"
    by (cases saved) (simp_all add: loadChatMessages_def sorted_sortByTimestamp)
  show "sorted (map timestamp (addMessageToList prev m))"
    by (simp add: addMessageToList_def sorted_sortByTimestamp)
  show "sorted (map timestamp (deleteChatMessage prev messageId))"
    by (simp add: deleteChatMessage_def sorted_sortByTimestamp)
  show "sorted (map timestamp (addWelcomeMessage prev fileName isNewFile newId now))"
    by (simp add: addWelcomeMessage_def Let_def sorted_sortByTimestamp)
  show "case editAndRegenerate_prepare prev messageId newText now img url of
      None \<Rightarrow> True
    | Some msgs \<Rightarrow> sorted (map timestamp msgs)"
    by (simp add: editAndRegenerate_prepare_def Let_def sorted_sortByTimestamp
          split: option.splits)
  show "sorted (map timestamp (editAndRegenerate_insert prev messageId m))"
    by (simp add: editAndRegenerate_insert_def sorted_sortByTimestamp)
  show "sorted (map timestamp (chatMessages (sendNewMessage_resolved st af aiResult newId now)))"
    by (simp add: sendNewMessage_resolved_def handleDocumentContentChange_def Let_def
          addMessageToList_def sorted_sortByTimestamp
          split: AISuggestionType.splits option.splits)
qed

theorem transcript_sorted_witness:
  "map timestamp
     (addMessageToList [aiMessage ''m1'' ''late'' 5, aiMessage ''m2'' ''later'' 9]
        (aiMessage ''m3'' ''early'' 3)) = [3, 5, 9] \<and>
   sorted (map timestamp
     (addMessageToList [aiMessage ''m1'' ''late'' 5, aiMessage ''m2'' ''later'' 9]
        (aiMessage ''m3'' ''early'' 3)))"
  using transcript_sorted
          [of None "[aiMessage ''m1'' ''late'' 5, aiMessage ''m2'' ''later'' 9]"
              "aiMessage ''m3'' ''early'' 3"]
  by (simp add: addMessageToList_def sortByTimestamp_def aiMessage_def)

section \<open>Edit and regenerate (C5)\<close>

lemma findIndex_None_iff: "findIndex p xs = None \<longleftrightarrow> (\<forall>x \<in> set xs. \<not> p x)"
  by (induction xs) auto

lemma findIndex_Some:
  "findIndex p xs = Some i \<Longrightarrow> i < length xs \<and> p (xs ! i) \<and> (\<forall>j < i. \<not> p (xs ! j))"
proof (induction xs arbitrary: i)
  case Nil
  then show ?case by simp
next
  case (Cons x xs)
  show ?case
  proof (cases "p x")
    case True
    with Cons.prems show ?thesis by simp
  next
    case False
    with Cons.prems obtain k where k: "findIndex p xs = Some k" "i = Suc k"
      by auto
    from Cons.IH [OF k(1)] False k(2) show ?thesis
      by (auto simp: nth_Cons split: nat.splits)
  qed
qed

lemma splice_shape:
  assumes "findIndex p xs = Some i"
  shows "take (i + 1) xs @ [m] @ drop (i + 1) xs = take i xs @ [xs ! i, m] @ drop (Suc i) xs"
  using findIndex_Some [OF assms] by (simp add: take_Suc_conv_app_nth)

lemma mset_splice: "mset (spliceAfterUserMessage prev uid m) = add_mset m (mset prev)"
proof (cases "findIndex (\<lambda>x. id_msg x = uid) prev")
  case None
  then show ?thesis by (simp add: spliceAfterUserMessage_def)
next
  case (Some i)
  have "mset (take (i + 1) prev) + mset (drop (i + 1) prev) = mset prev"
    by (metis append_take_drop_id mset_append)
  with Some show ?thesis
    by (simp add: spliceAfterUserMessage_def)
qed

lemma prepare_scenario:
  assumes "distinct [id_msg U1, id_msg A1, id_msg U2, id_msg A2]"
    and "id_msg A1 \<noteq> []" and "sender A1 = AI"
  shows "editAndRegenerate_prepare [U1, A1, U2, A2] (id_msg U1) newText now img url
           = Some (sortByTimestamp [rewriteUserMessage U1 newText now img url, U2, A2])"
proof -
  have "id_msg (rewriteUserMessage U1 newText now img url) = id_msg U1"
    by (simp add: rewriteUserMessage_def)
  with assms show ?thesis
    by (auto simp: editAndRegenerate_prepare_def Let_def)
qed

lemma splice_scenario:
  assumes "set S = {U, U2, A2}" and "distinct [id_msg U, id_msg U2, id_msg A2]"
  shows "\<exists>pre post. spliceAfterUserMessage S (id_msg U) R = pre @ [U, R] @ post"
proof -
  from assms(1) have "findIndex (\<lambda>x. id_msg x = id_msg U) S \<noteq> None"
    by (simp add: findIndex_None_iff)
  then obtain i where i: "findIndex (\<lambda>x. id_msg x = id_msg U) S = Some i"
    by blast
  from findIndex_Some [OF i] have "S ! i \<in> set S" and "id_msg (S ! i) = id_msg U"
    by simp_all
  with assms have Si: "S ! i = U"
    by auto
  have "spliceAfterUserMessage S (id_msg U) R = take i S @ [U, R] @ drop (Suc i) S"
    using splice_shape [OF i, of R] by (simp add: spliceAfterUserMessage_def i Si)
  then show ?thesis
    by blast
qed

lemma edit_regenerate_order:
  assumes "distinct [id_msg U1, id_msg A1, id_msg U2, id_msg A2]"
    and "id_msg A1 \<noteq> []" and "sender A1 = AI"
    and "timestamp U2 \<le> timestamp A2" and "timestamp A2 < now" and "now \<le> timestamp R"
  shows "editAndRegenerate_prepare [U1, A1, U2, A2] (id_msg U1) newText now img url
           = Some [U2, A2, rewriteUserMessage U1 newText now img url]"
    and "spliceAfterUserMessage [U2, A2, rewriteUserMessage U1 newText now img url] (id_msg U1) R
           = [U2, A2, rewriteUserMessage U1 newText now img url, R]"
    and "editAndRegenerate_insert [U2, A2, rewriteUserMessage U1 newText now img url] (id_msg U1) R
           = [U2, A2, rewriteUserMessage U1 newText now img url, R]"
  using assms
  by (auto simp: editAndRegenerate_prepare_def editAndRegenerate_insert_def
        spliceAfterUserMessage_def sortByTimestamp_def rewriteUserMessage_def Let_def)

text \<open>
  C5 (as amended). For the transcript U1, A1, U2, A2 (pairwise different ids, A1 an
  assistant message with a non-empty id), editing U1 overwrites its text with the new
  text, its timestamp with now and its attachment with the one passed, removes exactly
  A1, and sets the transcript to the edited U1, U2, A2 sorted by timestamp. The updater of
  the second step puts the reply R directly behind the edited U1 in the array it then
  sorts; the final transcript is sorted by timestamp and holds exactly the edited U1, R,
  U2 and A2, the last two unchanged. When U2 is not after A2, the edit is after A2 and
  the reply is not before the edit, the transcript after the first step reads U2, A2,
  edited U1, the array before the last sort and the final transcript read U2, A2,
  edited U1, R: the edited message and its reply come last, not first.
\<close>

theorem edit_regenerate_scenario:
  "(distinct [id_msg U1, id_msg A1, id_msg U2, id_msg A2] \<and> id_msg A1 \<noteq> [] \<and> sender A1 = AI \<longrightarrow>
      (let E = U1\<lparr>text_msg := newText, timestamp := now,
                   imagePart := img, imagePreviewUrl := url\<rparr>;
           S = sortByTimestamp [E, U2, A2]
       in editAndRegenerate_prepare [U1, A1, U2, A2] (id_msg U1) newText now img url = Some S \<and>
          (\<exists>pre post. spliceAfterUserMessage S (id_msg U1) R = pre @ [E, R] @ post) \<and>
          mset (editAndRegenerate_insert S (id_msg U1) R) = {#E, R, U2, A2#} \<and>
          sorted (map timestamp (editAndRegenerate_insert S (id_msg U1) R)))) \<and>
   (distinct [id_msg U1, id_msg A1, id_msg U2, id_msg A2] \<and> id_msg A1 \<noteq> [] \<and> sender A1 = AI \<and>
    timestamp U2 \<le> timestamp A2 \<and> timestamp A2 < now \<and> now \<le> timestamp R \<longrightarrow>
      (let E = U1\<lparr>text_msg := newText, timestamp := now,
                   imagePart := img, imagePreviewUrl := url\<rparr>
       in editAndRegenerate_prepare [U1, A1, U2, A2] (id_msg U1) newText now img url
            = Some [U2, A2, E] \<and>
          spliceAfterUserMessage [U2, A2, E] (id_msg U1) R = [U2, A2, E, R] \<and>
          editAndRegenerate_insert [U2, A2, E] (id_msg U1) R = [U2, A2, E, R]))"
proof (intro conjI impI)
  assume a: "distinct [id_msg U1, id_msg A1, id_msg U2, id_msg A2] \<and> id_msg A1 \<noteq> [] \<and>
    sender A1 = AI"
  define E where "E = U1\<lparr>text_msg := newText, timestamp := now,
                          imagePart := img, imagePreviewUrl := url\<rparr>"
  define S where "S = sortByTimestamp [E, U2, A2]"
  have E: "rewriteUserMessage U1 newText now img url = E" and idE: "id_msg E = id_msg U1"
    by (simp_all add: rewriteUserMessage_def E_def)
  have prep: "editAndRegenerate_prepare [U1, A1, U2, A2] (id_msg U1) newText now img url = Some S"
    using a prepare_scenario [of U1 A1 U2 A2 newText now img url] by (simp add: E S_def)
  have "set S = {E, U2, A2}" and "distinct [id_msg E, id_msg U2, id_msg A2]"
    using a by (simp_all add: S_def set_sortByTimestamp idE)
  then have "\<exists>pre post. spliceAfterUserMessage S (id_msg E) R = pre @ [E, R] @ post"
    by (rule splice_scenario)
  then have splice: "\<exists>pre post. spliceAfterUserMessage S (id_msg U1) R = pre @ [E, R] @ post"
    by (simp add: idE)
  have ms: "mset (editAndRegenerate_insert S (id_msg U1) R) = {#E, R, U2, A2#}"
    by (simp add: editAndRegenerate_insert_def mset_sortByTimestamp mset_splice S_def)
  have so: "sorted (map timestamp (editAndRegenerate_insert S (id_msg U1) R))"
    by (simp add: editAndRegenerate_insert_def sorted_sortByTimestamp)
  from prep splice ms so
  show "let E = U1\<lparr>text_msg := newText, timestamp := now,
                   imagePart := img, imagePreviewUrl := url\<rparr>;
           S = sortByTimestamp [E, U2, A2]
       in editAndRegenerate_prepare [U1, A1, U2, A2] (id_msg U1) newText now img url = Some S \<and>
          (\<exists>pre post. spliceAfterUserMessage S (id_msg U1) R = pre @ [E, R] @ post) \<and>
          mset (editAndRegenerate_insert S (id_msg U1) R) = {#E, R, U2, A2#} \<and>
          sorted (map timestamp (editAndRegenerate_insert S (id_msg U1) R))"
    unfolding Let_def E_def [symmetric] S_def [symmetric] by blast
next
  assume a: "distinct [id_msg U1, id_msg A1, id_msg U2, id_msg A2] \<and> id_msg A1 \<noteq> [] \<and>
    sender A1 = AI \<and> timestamp U2 \<le> timestamp A2 \<and> timestamp A2 < now \<and> now \<le> timestamp R"
  have E: "rewriteUserMessage U1 newText now img url
             = U1\<lparr>text_msg := newText, timestamp := now,
                   imagePart := img, imagePreviewUrl := url\<rparr>"
    by (simp add: rewriteUserMessage_def)
  from a edit_regenerate_order [of U1 A1 U2 A2 now R newText img url]
  show "let E = U1\<lparr>text_msg := newText, timestamp := now,
                   imagePart := img, imagePreviewUrl := url\<rparr>
       in editAndRegenerate_prepare [U1, A1, U2, A2] (id_msg U1) newText now img url
            = Some [U2, A2, E] \<and>
          spliceAfterUserMessage [U2, A2, E] (id_msg U1) R = [U2, A2, E, R] \<and>
          editAndRegenerate_insert [U2, A2, E] (id_msg U1) R = [U2, A2, E, R]"
    unfolding Let_def E by blast
qed

text \<open>
  A run with an attachment passed to the edit: the question \<open>u1\<close> of time 1 is edited
  at time 10 and answered at time 11.
\<close>

theorem edit_regenerate_scenario_witness:
  "editAndRegenerate_prepare
     [userMessage ''u1'' ''q'' 1 None None, aiMessage ''a1'' ''r'' 2,
      userMessage ''u2'' ''q2'' 3 None None, aiMessage ''a2'' ''r2'' 4]
     ''u1'' ''q!'' 10 (Some \<lparr>data = ''AAAA'', mimeType = ''image/png''\<rparr>) (Some ''blob:1'')
     = Some [userMessage ''u2'' ''q2'' 3 None None, aiMessage ''a2'' ''r2'' 4,
             userMessage ''u1'' ''q!'' 10
               (Some \<lparr>data = ''AAAA'', mimeType = ''image/png''\<rparr>) (Some ''blob:1'')] \<and>
   editAndRegenerate_insert
     [userMessage ''u2'' ''q2'' 3 None None, aiMessage ''a2'' ''r2'' 4,
      userMessage ''u1'' ''q!'' 10
        (Some \<lparr>data = ''AAAA'', mimeType = ''image/png''\<rparr>) (Some ''blob:1'')]
     ''u1'' (aiMessage ''a3'' ''r!'' 11)
     = [userMessage ''u2'' ''q2'' 3 None None, aiMessage ''a2'' ''r2'' 4,
        userMessage ''u1'' ''q!'' 10
          (Some \<lparr>data = ''AAAA'', mimeType = ''image/png''\<rparr>) (Some ''blob:1''),
        aiMessage ''a3'' ''r!'' 11]"
proof -
  have ids: "id_msg (userMessage ''u1'' ''q'' 1 None None) = ''u1''"
    "id_msg (aiMessage ''a1'' ''r'' 2) = ''a1''"
    "id_msg (userMessage ''u2'' ''q2'' 3 None None) = ''u2''"
    "id_msg (aiMessage ''a2'' ''r2'' 4) = ''a2''"
    "sender (aiMessage ''a1'' ''r'' 2) = AI"
    "timestamp (userMessage ''u2'' ''q2'' 3 None None) = 3"
    "timestamp (aiMessage ''a2'' ''r2'' 4) = 4"
    "timestamp (aiMessage ''a3'' ''r!'' 11) = 11"
    by (simp_all add: userMessage_def aiMessage_def)
  have E: "(userMessage ''u1'' ''q'' 1 None None)
             \<lparr>text_msg := ''q!'', timestamp := 10,
              imagePart := Some \<lparr>data = ''AAAA'', mimeType = ''image/png''\<rparr>,
              imagePreviewUrl := Some ''blob:1''\<rparr>
           = userMessage ''u1'' ''q!'' 10
               (Some \<lparr>data = ''AAAA'', mimeType = ''image/png''\<rparr>) (Some ''blob:1'')"
    by (simp add: userMessage_def)
  have h: "distinct [''u1'', ''a1'', ''u2'', ''a2''] \<and> ''a1'' \<noteq> [] \<and> AI = AI \<and>
           (3::int) \<le> 4 \<and> (4::int) < 10 \<and> (10::int) \<le> 11"
    by simp
  from edit_regenerate_scenario
         [where ?U1.0 = "userMessage ''u1'' ''q'' 1 None None"
            and ?A1.0 = "aiMessage ''a1'' ''r'' 2"
            and ?U2.0 = "userMessage ''u2'' ''q2'' 3 None None"
            and ?A2.0 = "aiMessage ''a2'' ''r2'' 4"
            and newText = "''q!''" and now = 10
            and img = "Some \<lparr>data = ''AAAA'', mimeType = ''image/png''\<rparr>"
            and url = "Some ''blob:1''" and R = "aiMessage ''a3'' ''r!'' 11",
          THEN conjunct2, unfolded ids Let_def E, THEN mp, OF h]
  show ?thesis
    by simp
qed

text \<open>
  On the same transcript without attachment: the edited question and its reply end up
  behind U2 and A2, so the final transcript is not the sequence edited U1, reply, U2, A2
  (which is not sorted by timestamp).
\<close>

theorem edit_regenerate_order_counterexample:
  "editAndRegenerate_prepare
     [userMessage ''u1'' ''q'' 1 None None, aiMessage ''a1'' ''r'' 2,
      userMessage ''u2'' ''q2'' 3 None None, aiMessage ''a2'' ''r2'' 4]
     ''u1'' ''q!'' 10 None None
     = Some [userMessage ''u2'' ''q2'' 3 None None, aiMessage ''a2'' ''r2'' 4,
             userMessage ''u1'' ''q!'' 10 None None] \<and>
   editAndRegenerate_insert
     [userMessage ''u2'' ''q2'' 3 None None, aiMessage ''a2'' ''r2'' 4,
      userMessage ''u1'' ''q!'' 10 None None]
     ''u1'' (aiMessage ''a3'' ''r!'' 11)
     = [userMessage ''u2'' ''q2'' 3 None None, aiMessage ''a2'' ''r2'' 4,
        userMessage ''u1'' ''q!'' 10 None None, aiMessage ''a3'' ''r!'' 11] \<and>
   editAndRegenerate_insert
     [userMessage ''u2'' ''q2'' 3 None None, aiMessage ''a2'' ''r2'' 4,
      userMessage ''u1'' ''q!'' 10 None None]
     ''u1'' (aiMessage ''a3'' ''r!'' 11)
     \<noteq> [userMessage ''u1'' ''q!'' 10 None None, aiMessage ''a3'' ''r!'' 11,
        userMessage ''u2'' ''q2'' 3 None None, aiMessage ''a2'' ''r2'' 4] \<and>
   \<not> sorted (map timestamp
       [userMessage ''u1'' ''q!'' 10 None None, aiMessage ''a3'' ''r!'' 11,
        userMessage ''u2'' ''q2'' 3 None None, aiMessage ''a2'' ''r2'' 4])"
  by (simp add: editAndRegenerate_prepare_def editAndRegenerate_insert_def
        spliceAfterUserMessage_def sortByTimestamp_def rewriteUserMessage_def
        userMessage_def aiMessage_def Let_def)

section \<open>Undo of an AI edit (C9)\<close>

lemma activeFile_update:
  "activeFile (updateFileContentOnly fs fid c) (Some fid)
     = map_option (\<lambda>f. f\<lparr>content := c\<rparr>) (activeFile fs (Some fid))"
  by (induction fs) (auto simp: activeFile_def updateFileContentOnly_def)

lemma activeFile_id: "activeFile fs (Some fid) = Some f \<Longrightarrow> id_file f = fid"
  by (induction fs) (auto simp: activeFile_def split: if_splits)

lemma undoAI_applies:
  assumes "previousDocumentContentForUndo st = Some c"
  shows "undoAIDocumentChange st (Some f) =
           showNotification
             ((handleDocumentContentChange st (id_file f) c)\<lparr>previousDocumentContentForUndo := None\<rparr>)
             Info aiUndoneText"
  using assms by (simp add: undoAIDocumentChange_def)

lemma undoAI_noop:
  "previousDocumentContentForUndo st = None \<or> af = None \<Longrightarrow> undoAIDocumentChange st af = st"
  by (auto simp: undoAIDocumentChange_def split: option.splits)

lemma resolved_update:
  assumes "action_type r = DOCUMENT_UPDATE" and "new_document_content r = Some newDoc"
  shows "sendNewMessage_resolved st (Some f) r newId now =
           (handleDocumentContentChange
              (st\<lparr>previousDocumentContentForUndo := Some (content f), isAICollaborating := True\<rparr>)
              (id_file f) newDoc)
             \<lparr>chatMessages :=
                addMessageToList (chatMessages st) (aiMessage newId (chat_message r) now),
              isAILoading := False\<rparr>"
  using assms by (simp add: sendNewMessage_resolved_def handleDocumentContentChange_def Let_def)

text \<open>
  The call itself: with a snapshot and a file it applies the snapshot through the gateway
  and clears it, so that a second call changes nothing.
\<close>

lemma undoAI_once:
  assumes "previousDocumentContentForUndo st = Some c"
  shows "previousDocumentContentForUndo (undoAIDocumentChange st (Some f)) = None"
    and "undoAIDocumentChange (undoAIDocumentChange st (Some f)) af
           = undoAIDocumentChange st (Some f)"
    and "id_file f \<noteq> [] \<Longrightarrow>
           files (undoAIDocumentChange st (Some f))
             = updateFileContentOnly (files st) (id_file f) c"
    and "id_file f \<noteq> [] \<Longrightarrow>
           documentHistories (undoAIDocumentChange st (Some f))
             = addHistoryStep (documentHistories st) (id_file f) c"
proof -
  show a: "previousDocumentContentForUndo (undoAIDocumentChange st (Some f)) = None"
    using assms by (simp add: undoAI_applies showNotification_def)
  then show "undoAIDocumentChange (undoAIDocumentChange st (Some f)) af
           = undoAIDocumentChange st (Some f)"
    by (simp add: undoAI_noop)
  show "id_file f \<noteq> [] \<Longrightarrow>
           files (undoAIDocumentChange st (Some f))
             = updateFileContentOnly (files st) (id_file f) c"
    "id_file f \<noteq> [] \<Longrightarrow>
           documentHistories (undoAIDocumentChange st (Some f))
             = addHistoryStep (documentHistories st) (id_file f) c"
    using assms
    by (simp_all add: undoAI_applies showNotification_def handleDocumentContentChange_def)
qed

text \<open>
  The effect clears the snapshot whenever an id is active and its file is found, and
  whenever no id is active.
\<close>

lemma activeFileEffect_clears:
  assumes "activeFileId = None \<or> activeFileId = Some [] \<or> activeFile (files st) activeFileId \<noteq> None"
  shows "previousDocumentContentForUndo (activeFileEffect st activeFileId now newId stamp) = None"
  using assms by (auto simp: activeFileEffect_def split: option.splits)

lemma activeFileEffect_files:
  "files (activeFileEffect st activeFileId now newId stamp) = files st"
  by (simp add: activeFileEffect_def split: option.splits)

text \<open>
  An AI document update of the active file replaces the object of the active file, so
  the effect runs and the snapshot that \<^verbatim>\<open>sendNewMessage\<close> has just recorded is gone
  before \<^verbatim>\<open>undoAIDocumentChange\<close> can be called: the call then changes nothing and the
  document keeps the content the AI wrote.
\<close>

lemma ai_update_loses_snapshot:
  assumes "activeFile (files st) (Some fid) = Some f"
    and "action_type r = DOCUMENT_UPDATE" and "new_document_content r = Some newDoc"
    and "fid \<noteq> []"
  shows "previousDocumentContentForUndo
           (sendNewMessage_resolved st (Some f) r replyId replyStamp) = Some (content f)"
    and "previousDocumentContentForUndo
           (sendNewMessage_committed st (Some fid) (Some f) r replyId replyStamp now newId stamp)
           = None"
    and "map_option content
           (activeFile
              (files (sendNewMessage_committed st (Some fid) (Some f) r replyId replyStamp
                        now newId stamp))
              (Some fid))
           = Some newDoc"
    and "undoAIDocumentChange
           (sendNewMessage_committed st (Some fid) (Some f) r replyId replyStamp now newId stamp)
           af
           = sendNewMessage_committed st (Some fid) (Some f) r replyId replyStamp now newId stamp"
proof -
  define st1 where "st1 = sendNewMessage_resolved st (Some f) r replyId replyStamp"
  have idf: "id_file f = fid"
    using assms(1) by (rule activeFile_id)
  have st1: "previousDocumentContentForUndo st1 = Some (content f)"
    "files st1 = updateFileContentOnly (files st) fid newDoc"
    using assms
    by (simp_all add: st1_def resolved_update handleDocumentContentChange_def idf)
  have af1: "activeFile (files st1) (Some fid) = Some (f\<lparr>content := newDoc\<rparr>)"
    using assms(1) by (simp add: st1 activeFile_update)
  have g: "gatewayReplacesActiveFile (files st) (Some fid) (id_file f)"
    using assms(1,4) by (simp add: gatewayReplacesActiveFile_def idf)
  have c: "sendNewMessage_committed st (Some fid) (Some f) r replyId replyStamp now newId stamp
             = activeFileEffect st1 (Some fid) now newId stamp"
    using assms(2,3) g by (simp add: sendNewMessage_committed_def st1_def)
  show "previousDocumentContentForUndo
           (sendNewMessage_resolved st (Some f) r replyId replyStamp) = Some (content f)"
    using st1(1) by (simp add: st1_def)
  show n: "previousDocumentContentForUndo
           (sendNewMessage_committed st (Some fid) (Some f) r replyId replyStamp now newId stamp)
           = None"
    unfolding c by (rule activeFileEffect_clears) (simp add: af1)
  show "map_option content
           (activeFile
              (files (sendNewMessage_committed st (Some fid) (Some f) r replyId replyStamp
                        now newId stamp))
              (Some fid))
           = Some newDoc"
    unfolding c by (simp add: activeFileEffect_files af1)
  from n show "undoAIDocumentChange
           (sendNewMessage_committed st (Some fid) (Some f) r replyId replyStamp now newId stamp)
           af
           = sendNewMessage_committed st (Some fid) (Some f) r replyId replyStamp now newId stamp"
    by (simp add: undoAI_noop)
qed

text \<open>
  C9, on the document \<open>f1\<close> with content \<open>old\<close>, active, to which the AI answers with
  the document update \<open>new\<close>. \<^verbatim>\<open>sendNewMessage\<close> records the snapshot \<open>old\<close>; the gateway
  replaces the object of the active file, the effect of \<^verbatim>\<open>App\<close> runs and clears the
  snapshot; \<open>undoAIDocumentChange\<close> on the active file then changes nothing, and the
  content stays \<open>new\<close> where the pre-edit content \<open>old\<close> was to be restored.
\<close>

theorem ai_undo_lost:
  "(let f = \<lparr>id_file = ''f1'', name_file = ''ledger.txt'', folderId = None,
             content = ''old'', createdAt = 0, deletedAt = None\<rparr>;
        st = \<lparr>files = [f],
              documentHistories =
                Map.empty(''f1'' \<mapsto> \<lparr>history = [''old''], currentIndex = 0\<rparr>),
              chatMessages = [], previousDocumentContentForUndo = None,
              isAILoading = True, isAICollaborating = False, activeNotification = None\<rparr>;
        r = \<lparr>action_type = DOCUMENT_UPDATE, new_document_content = Some ''new'',
             chat_message = ''done''\<rparr>;
        st1 = sendNewMessage_resolved st (Some f) r ''m1'' 5000;
        st2 = sendNewMessage_committed st (Some ''f1'') (Some f) r ''m1'' 5000 5001 ''m2'' 5001;
        st3 = undoAIDocumentChange st2 (activeFile (files st2) (Some ''f1''))
    in previousDocumentContentForUndo st1 = Some ''old'' \<and>
       gatewayReplacesActiveFile (files st) (Some ''f1'') ''f1'' \<and>
       previousDocumentContentForUndo st2 = None \<and>
       map_option content (activeFile (files st2) (Some ''f1'')) = Some ''new'' \<and>
       st3 = st2 \<and>
       map_option content (activeFile (files st3) (Some ''f1'')) = Some ''new'')"
proof -
  let ?f = "\<lparr>id_file = ''f1'', name_file = ''ledger.txt'', folderId = None,
              content = ''old'', createdAt = 0, deletedAt = None\<rparr>"
  let ?st = "\<lparr>files = [?f],
               documentHistories =
                 Map.empty(''f1'' \<mapsto> \<lparr>history = [''old''], currentIndex = 0\<rparr>),
               chatMessages = [], previousDocumentContentForUndo = None,
               isAILoading = True, isAICollaborating = False, activeNotification = None\<rparr>"
  let ?r = "\<lparr>action_type = DOCUMENT_UPDATE, new_document_content = Some ''new'',
              chat_message = ''done''\<rparr>"
  have a: "activeFile (files ?st) (Some ''f1'') = Some ?f"
    by (simp add: activeFile_def)
  have g: "gatewayReplacesActiveFile (files ?st) (Some ''f1'') ''f1''"
    by (simp add: gatewayReplacesActiveFile_def activeFile_def)
  note run = ai_update_loses_snapshot [OF a, where r = ?r and newDoc = "''new''"]
  have s1: "previousDocumentContentForUndo (sendNewMessage_resolved ?st (Some ?f) ?r ''m1'' 5000)
              = Some ''old''"
    using run(1) by simp
  have s2: "previousDocumentContentForUndo
              (sendNewMessage_committed ?st (Some ''f1'') (Some ?f) ?r ''m1'' 5000 5001 ''m2'' 5001)
              = None"
    using run(2) by simp
  have s3: "map_option content
              (activeFile
                 (files (sendNewMessage_committed ?st (Some ''f1'') (Some ?f) ?r ''m1'' 5000 5001
                           ''m2'' 5001))
                 (Some ''f1''))
              = Some ''new''"
    using run(3) by simp
  have s4: "undoAIDocumentChange
              (sendNewMessage_committed ?st (Some ''f1'') (Some ?f) ?r ''m1'' 5000 5001 ''m2'' 5001)
              af
              = sendNewMessage_committed ?st (Some ''f1'') (Some ?f) ?r ''m1'' 5000 5001 ''m2'' 5001"
    for af
    using run(4) by simp
  show ?thesis
    unfolding Let_def using s1 g s2 s3 s4 by simp
qed

text \<open>
  The snapshot survives only where the updated file is not the active one: when another
  document has become active before the answer arrives, the update goes to the file
  \<^verbatim>\<open>sendNewMessage\<close> was called with, and \<open>undoAIDocumentChange\<close> on the active file then
  writes the old content of that file into the other document.
\<close>

lemma ai_undo_other_file:
  "(let f1 = \<lparr>id_file = ''f1'', name_file = ''ledger.txt'', folderId = None,
              content = ''old'', createdAt = 0, deletedAt = None\<rparr>;
        f2 = \<lparr>id_file = ''f2'', name_file = ''notes.txt'', folderId = None,
              content = ''notes'', createdAt = 0, deletedAt = None\<rparr>;
        st = \<lparr>files = [f1, f2], documentHistories = Map.empty,
              chatMessages = [], previousDocumentContentForUndo = None,
              isAILoading = True, isAICollaborating = False, activeNotification = None\<rparr>;
        r = \<lparr>action_type = DOCUMENT_UPDATE, new_document_content = Some ''new'',
             chat_message = ''done''\<rparr>;
        st2 = sendNewMessage_committed st (Some ''f2'') (Some f1) r ''m1'' 5000 5001 ''m2'' 5001;
        st3 = undoAIDocumentChange st2 (activeFile (files st2) (Some ''f2''))
    in previousDocumentContentForUndo st2 = Some ''old'' \<and>
       map content (files st2) = [''new'', ''notes''] \<and>
       map content (files st3) = [''new'', ''old''])"
  by (simp add: Let_def sendNewMessage_committed_def sendNewMessage_resolved_def
        gatewayReplacesActiveFile_def activeFile_def handleDocumentContentChange_def
        updateFileContentOnly_def undoAIDocumentChange_def showNotification_def)

end
